theory Spec2Isabelle
  imports Main "HOL-Library.Monad_Syntax"
begin

section \<open>Errors\<close>

text \<open>
  Exceptions of the JavaScript runtime are values: \<open>TypeError\<close> is what a property read
  on \<open>null\<close> or \<open>undefined\<close> raises, \<open>SyntaxError\<close> is what \<open>JSON.parse\<close> raises on text
  that is not JSON, \<open>ENOENT\<close> is what \<open>fs.readFileSync\<close> raises for a path that does not
  exist, \<open>UpdateEmpty\<close> is the \<open>Error("Can't update empty node!")\<close> of the iterator.
\<close>

datatype error = TypeError | SyntaxError | ENOENT | UpdateEmpty

section \<open>Nodes of the persistent tree\<close>

text \<open>
  \<open>rbtree.js\<close>, lines 2 to 24. A reference to a node is \<open>Null\<close> or an object
  \<open>RBNode(color, key, value, left, right, count)\<close>, the fields in the order of the
  constructor. \<open>_count\<close> is a JavaScript number that the code increments and decrements
  without a check, so it is an \<open>int\<close>.
\<close>

datatype color = RED | BLACK

datatype ('k, 'v) node =
    Null
  | RBNode color 'k 'v "('k, 'v) node" "('k, 'v) node" int

text \<open>\<open>node ? node._count : 0\<close>, the reading of a count that \<open>recount\<close> and \<open>length\<close> use.\<close>

fun countOf :: "('k, 'v) node \<Rightarrow> int" where
  "countOf Null = 0"
| "countOf (RBNode c k v l r cnt) = cnt"

text \<open>
  \<open>recount(node)\<close> sets \<open>node._count = 1 + count(left) + count(right)\<close>; here it builds
  the node from its other fields with that count.
\<close>

definition recount :: "color \<Rightarrow> 'k \<Rightarrow> 'v \<Rightarrow> ('k, 'v) node \<Rightarrow> ('k, 'v) node \<Rightarrow> ('k, 'v) node" where
  "recount c k v l r = RBNode c k v l r (1 + countOf l + countOf r)"

text \<open>
  \<open>repaint(color, node)\<close> allocates a copy of \<open>node\<close> with another colour. The source
  calls it on nodes it has tested to be present; on \<open>null\<close> it would raise, and no call
  of the model passes \<open>Null\<close>.
\<close>

fun repaint :: "color \<Rightarrow> ('k, 'v) node \<Rightarrow> ('k, 'v) node" where
  "repaint c (RBNode _ k v l r cnt) = RBNode c k v l r cnt"
| "repaint c Null = Null"

text \<open>\<open>y && y._color === RED\<close>: the test on an uncle, a sibling or a nephew.\<close>

fun isRed :: "('k, 'v) node \<Rightarrow> bool" where
  "isRed (RBNode RED _ _ _ _ _) = True"
| "isRed _ = False"

text \<open>\<open>defaultCompare\<close>, lines 955 to 963, on keys ordered by \<open><\<close>.\<close>

definition defaultCompare :: "'k::linorder \<Rightarrow> 'k \<Rightarrow> int" where
  "defaultCompare a b = (if a < b then - 1 else if a > b then 1 else 0)"

text \<open>
  A tree is the object \<open>RedBlackTree(compare, root)\<close>; \<open>createRBTree(compare)\<close> builds the
  empty one.
\<close>

record ('k, 'v) RedBlackTree =
  compare :: "'k \<Rightarrow> 'k \<Rightarrow> int"
  root :: "('k, 'v) node"

definition createRBTree :: "('k \<Rightarrow> 'k \<Rightarrow> int) \<Rightarrow> ('k, 'v) RedBlackTree" where
  "createRBTree cmp = \<lparr>compare = cmp, root = Null\<rparr>"

text \<open>\<open>length\<close>, lines 44 to 49.\<close>

definition rbt_length :: "('k, 'v) RedBlackTree \<Rightarrow> int" where
  "rbt_length t = (case root t of Null \<Rightarrow> 0 | RBNode c k v l r cnt \<Rightarrow> cnt)"

section \<open>Paths of freshly allocated nodes\<close>

text \<open>
  \<open>insert\<close> and the iterator's \<open>remove\<close> and \<open>update\<close> copy the nodes from the root to the
  place of the change into an array (\<open>n_stack\<close>, \<open>cstack\<close>); entry \<open>s\<close> of the array is a
  new object whose child on the side of the path is entry \<open>s + 1\<close>, and whose other child
  is shared with the old tree. The later assignments go to these new objects only, and
  each is referenced once, from its parent in the array. Such a new object is a
  \<open>Frame\<close>: the side on which the path continues, then \<open>_color\<close>, \<open>key\<close>, \<open>value\<close>, the
  child on the other side, and \<open>_count\<close>. The identity tests of the source that ask on
  which side of its parent a path node hangs (\<open>pp.left === p\<close>, \<open>p.left === n\<close>,
  \<open>n.left === stack[i + 1]\<close>) read the side recorded in the frame.
\<close>

datatype dir = L | R

datatype ('k, 'v) frame = Frame dir color 'k 'v "('k, 'v) node" int

text \<open>
  \<open>plug fs n\<close> is the node that the frames \<open>fs\<close> denote once the path is closed by \<open>n\<close>:
  the head of \<open>fs\<close> is the parent of \<open>n\<close>, the last frame is the root.
\<close>

fun plug :: "('k, 'v) frame list \<Rightarrow> ('k, 'v) node \<Rightarrow> ('k, 'v) node" where
  "plug [] n = n"
| "plug (Frame L c k v other cnt # fs) n = plug fs (RBNode c k v n other cnt)"
| "plug (Frame R c k v other cnt # fs) n = plug fs (RBNode c k v other n cnt)"

section \<open>insert\<close>

text \<open>
  Lines 53 to 66: the descent. The result lists, from the root down, each node passed
  with the comparison \<open>d = cmp(key, n.key)\<close> made there (\<open>n_stack\<close> and \<open>d_stack\<close>).
\<close>

fun insertDescent :: "('k \<Rightarrow> 'k \<Rightarrow> int) \<Rightarrow> 'k \<Rightarrow> ('k, 'v) node \<Rightarrow> (('k, 'v) node \<times> int) list" where
  "insertDescent cmp key Null = []"
| "insertDescent cmp key (RBNode c k v l r cnt) =
     (let d = cmp key k
      in (RBNode c k v l r cnt, d) # (if d \<le> 0 then insertDescent cmp key l
                                       else insertDescent cmp key r))"

text \<open>
  Lines 69 to 77: each node of the path is replaced by a new node with the count
  incremented and the child on the side of \<open>d\<close> replaced by the next new node.
\<close>

fun insertCopy :: "('k, 'v) node \<times> int \<Rightarrow> ('k, 'v) frame" where
  "insertCopy (RBNode c k v l r cnt, d) =
     (if d \<le> 0 then Frame L c k v r (cnt + 1) else Frame R c k v l (cnt + 1))"
| "insertCopy (Null, d) = undefined"

text \<open>
  Lines 80 to 221: the rebalancing loop \<open>for (s = n_stack.length - 1; s > 1; --s)\<close>. The
  first argument holds \<open>n_stack[s - 1]\<close>, \<open>n_stack[s - 2]\<close>, ... down to \<open>n_stack[0]\<close>; the
  second is \<open>n = n_stack[s]\<close> with everything under it. The loop runs while two frames
  are left (\<open>s > 1\<close>). The four recolouring cases continue two entries higher with
  \<open>pp\<close> as the new \<open>n\<close>; the four rotations link the new subtree root into \<open>ppp\<close> and
  leave the loop. The result is \<open>n_stack[0]\<close> after the loop.
\<close>

fun insertRebalance :: "('k, 'v) frame list \<Rightarrow> ('k, 'v) node \<Rightarrow> ('k, 'v) node" where
  "insertRebalance (Frame pd pc pk pv ps pcnt # Frame ppd ppc ppk ppv y ppcnt # rest)
                   (RBNode nc nk nv nl nr ncnt) =
     (let n = RBNode nc nk nv nl nr ncnt in
      if pc = BLACK \<or> nc = BLACK then
        plug (Frame pd pc pk pv ps pcnt # Frame ppd ppc ppk ppv y ppcnt # rest) n
      else
        (case ppd of
           L \<Rightarrow>
             (case pd of
                L \<Rightarrow>
                  if isRed y then
                    \<comment> \<open>LLr\<close>
                    insertRebalance rest
                      (RBNode RED ppk ppv (RBNode BLACK pk pv n ps pcnt) (repaint BLACK y) ppcnt)
                  else
                    \<comment> \<open>LLb\<close>
                    plug rest (recount BLACK pk pv n (recount RED ppk ppv ps y))
              | R \<Rightarrow>
                  if isRed y then
                    \<comment> \<open>LRr\<close>
                    insertRebalance rest
                      (RBNode RED ppk ppv (RBNode BLACK pk pv ps n pcnt) (repaint BLACK y) ppcnt)
                  else
                    \<comment> \<open>LRb\<close>
                    plug rest (recount BLACK nk nv (recount pc pk pv ps nl)
                                                   (recount RED ppk ppv nr y)))
         | R \<Rightarrow>
             (case pd of
                R \<Rightarrow>
                  if isRed y then
                    \<comment> \<open>RRr\<close>
                    insertRebalance rest
                      (RBNode RED ppk ppv (repaint BLACK y) (RBNode BLACK pk pv ps n pcnt) ppcnt)
                  else
                    \<comment> \<open>RRb\<close>
                    plug rest (recount BLACK pk pv (recount RED ppk ppv y ps) n)
              | L \<Rightarrow>
                  if isRed y then
                    \<comment> \<open>RLr\<close>
                    insertRebalance rest
                      (RBNode RED ppk ppv (repaint BLACK y) (RBNode BLACK pk pv n ps pcnt) ppcnt)
                  else
                    \<comment> \<open>RLb\<close>
                    plug rest (recount BLACK nk nv (recount RED ppk ppv y nl)
                                                   (recount pc pk pv nr ps)))))"
| "insertRebalance fs n = plug fs n"

text \<open>
  \<open>insert\<close>, lines 50 to 225: descent, copy of the path with the new red leaf at its
  end, rebalancing, and \<open>n_stack[0]._color = BLACK\<close>.
\<close>

definition rbt_insert :: "('k, 'v) RedBlackTree \<Rightarrow> 'k \<Rightarrow> 'v \<Rightarrow> ('k, 'v) RedBlackTree" where
  "rbt_insert t key val =
     (let n_stack = map insertCopy (insertDescent (compare t) key (root t))
      in \<lparr>compare = compare t,
          root = repaint BLACK (insertRebalance (rev n_stack) (RBNode RED key val Null Null 1))\<rparr>)"

section \<open>get\<close>

text \<open>\<open>get\<close>, lines 408 to 424; \<open>None\<close> is the \<open>undefined\<close> of the final \<open>return\<close>.\<close>

fun getLoop :: "('k \<Rightarrow> 'k \<Rightarrow> int) \<Rightarrow> 'k \<Rightarrow> ('k, 'v) node \<Rightarrow> 'v option" where
  "getLoop cmp key Null = None"
| "getLoop cmp key (RBNode c k v l r cnt) =
     (let d = cmp key k
      in if d = 0 then Some v
         else if d \<le> 0 then getLoop cmp key l
         else getLoop cmp key r)"

definition rbt_get :: "('k, 'v) RedBlackTree \<Rightarrow> 'k \<Rightarrow> 'v option" where
  "rbt_get t key = getLoop (compare t) key (root t)"

section \<open>Iterators\<close>

text \<open>
  An iterator is \<open>RedBlackTreeIterator(tree, stack)\<close>, lines 486 to 490. Its \<open>_stack\<close> is
  the array of the nodes from the root to the current node. Every method that builds one
  pushes a node and then steps to one of its children, and the methods that read one ask
  on which side entry \<open>s + 1\<close> hangs under entry \<open>s\<close> (\<open>stack[s + 1] === stack[s].right\<close>,
  \<open>n.left === stack[i + 1]\<close>). So each entry but the last is kept with the side that was
  taken from it: \<open>Stack [(n0, d0), ..., (nm, dm)] top\<close> is the array
  \<open>[n0, ..., nm, top]\<close>, and \<open>EmptyStack\<close> is \<open>[]\<close>.
\<close>

datatype ('k, 'v) nstack =
    EmptyStack
  | Stack "(('k, 'v) node \<times> dir) list" "('k, 'v) node"

record ('k, 'v) RedBlackTreeIterator =
  tree :: "('k, 'v) RedBlackTree"
  stack :: "('k, 'v) nstack"

text \<open>\<open>valid\<close>, lines 491 to 493, and \<open>key\<close>, lines 607 to 612.\<close>

definition iter_valid :: "('k, 'v) RedBlackTreeIterator \<Rightarrow> bool" where
  "iter_valid it = (case stack it of EmptyStack \<Rightarrow> False | Stack anc cur \<Rightarrow> True)"

definition iter_key :: "('k, 'v) RedBlackTreeIterator \<Rightarrow> 'k option" where
  "iter_key it =
     (case stack it of
        Stack anc (RBNode c k v l r cnt) \<Rightarrow> Some k
      | _ \<Rightarrow> None)"

text \<open>
  \<open>find\<close>, lines 380 to 398. The second argument of the loop is the array built so far.
\<close>

fun findLoop :: "('k \<Rightarrow> 'k \<Rightarrow> int) \<Rightarrow> 'k \<Rightarrow> (('k, 'v) node \<times> dir) list \<Rightarrow> ('k, 'v) node
    \<Rightarrow> ('k, 'v) nstack" where
  "findLoop cmp key anc Null = EmptyStack"
| "findLoop cmp key anc (RBNode c k v l r cnt) =
     (let d = cmp key k; n = RBNode c k v l r cnt
      in if d = 0 then Stack anc n
         else if d \<le> 0 then findLoop cmp key (anc @ [(n, L)]) l
         else findLoop cmp key (anc @ [(n, R)]) r)"

definition rbt_find :: "('k, 'v) RedBlackTree \<Rightarrow> 'k \<Rightarrow> ('k, 'v) RedBlackTreeIterator" where
  "rbt_find t key = \<lparr>tree = t, stack = findLoop (compare t) key [] (root t)\<rparr>"

text \<open>
  \<open>at\<close>, lines 264 to 294. The loop pushes \<open>n\<close> and reads \<open>n.left\<close> without a test of
  \<open>n\<close>: on \<open>null\<close> that read raises. Inside the loop \<open>n\<close> is replaced by a child that was
  tested, so only the root can be \<open>null\<close> there.
\<close>

fun atLoop :: "(('k, 'v) node \<times> dir) list \<Rightarrow> ('k, 'v) node \<Rightarrow> int \<Rightarrow> error + ('k, 'v) nstack" where
  "atLoop anc Null idx = Inl TypeError"
| "atLoop anc (RBNode c k v l r cnt) idx =
     (let n = RBNode c k v l r cnt
      in if l \<noteq> Null \<and> idx < countOf l then atLoop (anc @ [(n, L)]) l idx
         else
           (let idx1 = (if l \<noteq> Null then idx - countOf l else idx)
            in if idx1 = 0 then Inr (Stack anc n)
               else
                 (let idx2 = idx1 - 1
                  in if r \<noteq> Null then
                       (if idx2 \<ge> countOf r then Inr EmptyStack
                        else atLoop (anc @ [(n, R)]) r idx2)
                     else Inr EmptyStack)))"

definition rbt_at :: "('k, 'v) RedBlackTree \<Rightarrow> int \<Rightarrow> error + ('k, 'v) RedBlackTreeIterator" where
  "rbt_at t idx =
     (if idx < 0 then Inr \<lparr>tree = t, stack = EmptyStack\<rparr>
      else (case atLoop [] (root t) idx of
              Inl e \<Rightarrow> Inl e
            | Inr st \<Rightarrow> Inr \<lparr>tree = t, stack = st\<rparr>))"

text \<open>
  \<open>index\<close>, lines 619 to 641. The loop \<open>for (s = stack.length - 2; s >= 0; --s)\<close> visits
  the entries under the top from the last one to the root.
\<close>

fun indexStep :: "int \<Rightarrow> ('k, 'v) node \<times> dir \<Rightarrow> error + int" where
  "indexStep idx (RBNode c k v l r cnt, R) = Inr (idx + 1 + countOf l)"
| "indexStep idx (RBNode c k v l r cnt, L) = Inr idx"
| "indexStep idx (Null, d) = Inl TypeError"

fun indexLoop :: "int \<Rightarrow> (('k, 'v) node \<times> dir) list \<Rightarrow> error + int" where
  "indexLoop idx [] = Inr idx"
| "indexLoop idx (e # es) =
     (case indexStep idx e of Inl err \<Rightarrow> Inl err | Inr idx' \<Rightarrow> indexLoop idx' es)"

definition iter_index :: "('k, 'v) RedBlackTreeIterator \<Rightarrow> error + int" where
  "iter_index it =
     (case stack it of
        EmptyStack \<Rightarrow> Inr (countOf (root (tree it)))
      | Stack anc Null \<Rightarrow> Inl TypeError
      | Stack anc (RBNode c k v l r cnt) \<Rightarrow> indexLoop (countOf l) (rev anc))"

section \<open>Traversal\<close>

text \<open>
  \<open>doVisitFull\<close>, lines 429 to 443. The visitor may change state of its own (\<open>keys\<close> and
  \<open>values\<close> push to an array), so it takes that state and returns it with its result;
  \<open>None\<close> is a falsy result, \<open>Some x\<close> a truthy one, which ends the traversal. The source
  calls the function on a node that is present.
\<close>

fun doVisitFull :: "('k \<Rightarrow> 'v \<Rightarrow> 's \<Rightarrow> 'x option \<times> 's) \<Rightarrow> ('k, 'v) node \<Rightarrow> 's \<Rightarrow> 'x option \<times> 's" where
  "doVisitFull visit Null s = (None, s)"
| "doVisitFull visit (RBNode c k v l r cnt) s =
     (case (if l \<noteq> Null then doVisitFull visit l s else (None, s)) of
        (Some x, s1) \<Rightarrow> (Some x, s1)
      | (None, s1) \<Rightarrow>
          (case visit k v s1 of
             (Some x, s2) \<Rightarrow> (Some x, s2)
           | (None, s2) \<Rightarrow> (if r \<noteq> Null then doVisitFull visit r s2 else (None, s2))))"

text \<open>
  \<open>forEach\<close> with one argument, lines 226 to 233, and \<open>keys\<close> and \<open>values\<close>, lines 30 to
  43, whose visitors push and return nothing.
\<close>

definition rbt_forEach :: "('k, 'v) RedBlackTree \<Rightarrow> ('k \<Rightarrow> 'v \<Rightarrow> 's \<Rightarrow> 'x option \<times> 's) \<Rightarrow> 's
    \<Rightarrow> 'x option \<times> 's" where
  "rbt_forEach t visit s = (if root t = Null then (None, s) else doVisitFull visit (root t) s)"

definition rbt_keys :: "('k, 'v) RedBlackTree \<Rightarrow> 'k list" where
  "rbt_keys t = snd (rbt_forEach t (\<lambda>k v result. (None :: unit option, result @ [k])) [])"

definition rbt_values :: "('k, 'v) RedBlackTree \<Rightarrow> 'v list" where
  "rbt_values t = snd (rbt_forEach t (\<lambda>k v result. (None :: unit option, result @ [v])) [])"

section \<open>Removal\<close>

text \<open>
  \<open>fixDoubleBlack(stack)\<close>, lines 748 to 953, is called on the copied path whose last
  entry is a black leaf \<open>n0\<close> that \<open>remove\<close> unlinks from its parent after the call. The
  loop index \<open>i\<close> splits the path: the first argument holds \<open>stack[i - 1]\<close>, ...,
  \<open>stack[0]\<close> (the parent \<open>p\<close> first), the second holds the new nodes from \<open>stack[i]\<close>
  down to the parent of \<open>n0\<close>, and the third is the count of \<open>n0\<close>. So \<open>n = stack[i]\<close> is
  the head of the second argument, or \<open>n0\<close> when that is empty; the function reads its
  count (in \<open>recount(p)\<close>) and writes its colour.

  The result is the whole path of new nodes over \<open>n0\<close>, its parent first. The rotations
  put \<open>s\<close> (or \<open>z\<close>) over \<open>p\<close>; the source stores it in \<open>stack[i - 1]\<close> and links it into
  \<open>pp\<close>, here it is a frame of the path. A sibling that is \<open>null\<close> makes the read
  \<open>s.right\<close> (or \<open>s.left\<close>) raise.
\<close>

fun curCount :: "('k, 'v) frame list \<Rightarrow> int \<Rightarrow> int" where
  "curCount [] c0 = c0"
| "curCount (Frame d c k v other cnt # fs) c0 = cnt"

fun paintCur :: "('k, 'v) frame list \<Rightarrow> ('k, 'v) frame list" where
  "paintCur [] = []"
| "paintCur (Frame d c k v other cnt # fs) = Frame d BLACK k v other cnt # fs"

fun nodes :: "('k, 'v) node \<Rightarrow> nat" where
  "nodes Null = 0"
| "nodes (RBNode c k v l r cnt) = Suc (nodes l + nodes r)"

fun frameWeight :: "('k, 'v) frame \<Rightarrow> nat" where
  "frameWeight (Frame d c k v other cnt) = 2 * nodes other + 1"

function (sequential) fixDoubleBlack ::
    "('k, 'v) frame list \<Rightarrow> ('k, 'v) frame list \<Rightarrow> int \<Rightarrow> error + ('k, 'v) frame list" where
  "fixDoubleBlack [] lower c0 = Inr (rev (paintCur lower))"
| "fixDoubleBlack (Frame d pc pk pv Null pcnt # upper) lower c0 = Inl TypeError"
| "fixDoubleBlack (Frame L pc pk pv (RBNode sc sk sv sl sr scnt) pcnt # upper) lower c0 =
     (let nc = curCount lower c0; s = RBNode sc sk sv sl sr scnt in
      if isRed sr then
        \<comment> \<open>case 1: right sibling child red\<close>
        (let pcnt' = 1 + nc + countOf sl;
             z = repaint BLACK sr
         in Inr (rev (paintCur lower) @ Frame L BLACK pk pv sl pcnt'
                   # Frame L pc sk sv z (1 + pcnt' + countOf z) # upper))
      else if isRed sl then
        \<comment> \<open>case 1: left sibling child red\<close>
        (case sl of
           RBNode zc zk zv zl zr zcnt \<Rightarrow>
             (let pcnt' = 1 + nc + countOf zl;
                  s' = recount BLACK sk sv zr sr
              in Inr (rev (paintCur lower) @ Frame L BLACK pk pv zl pcnt'
                        # Frame L pc zk zv s' (1 + pcnt' + countOf s') # upper))
         | Null \<Rightarrow> Inl TypeError)
      else if sc = BLACK then
        (if pc = RED then
           \<comment> \<open>case 2: black sibling, red parent\<close>
           Inr (rev lower @ Frame L BLACK pk pv (repaint RED s) pcnt # upper)
         else
           \<comment> \<open>case 2: black sibling, black parent\<close>
           fixDoubleBlack upper (Frame L pc pk pv (repaint RED s) pcnt # lower) c0)
      else
        \<comment> \<open>case 3: red sibling\<close>
        (let pcnt' = 1 + nc + countOf sl
         in fixDoubleBlack (Frame L RED pk pv sl pcnt'
                              # Frame L pc sk sv sr (1 + pcnt' + countOf sr) # upper) lower c0))"
| "fixDoubleBlack (Frame R pc pk pv (RBNode sc sk sv sl sr scnt) pcnt # upper) lower c0 =
     (let nc = curCount lower c0; s = RBNode sc sk sv sl sr scnt in
      if isRed sl then
        \<comment> \<open>case 1: left sibling child red\<close>
        (let pcnt' = 1 + countOf sr + nc;
             z = repaint BLACK sl
         in Inr (rev (paintCur lower) @ Frame R BLACK pk pv sr pcnt'
                   # Frame R pc sk sv z (1 + countOf z + pcnt') # upper))
      else if isRed sr then
        \<comment> \<open>case 1: right sibling child red\<close>
        (case sr of
           RBNode zc zk zv zl zr zcnt \<Rightarrow>
             (let pcnt' = 1 + countOf zr + nc;
                  s' = recount BLACK sk sv sl zl
              in Inr (rev (paintCur lower) @ Frame R BLACK pk pv zr pcnt'
                        # Frame R pc zk zv s' (1 + countOf s' + pcnt') # upper))
         | Null \<Rightarrow> Inl TypeError)
      else if sc = BLACK then
        (if pc = RED then
           \<comment> \<open>case 2: black sibling, red parent\<close>
           Inr (rev lower @ Frame R BLACK pk pv (repaint RED s) pcnt # upper)
         else
           \<comment> \<open>case 2: black sibling, black parent\<close>
           fixDoubleBlack upper (Frame R pc pk pv (repaint RED s) pcnt # lower) c0)
      else
        \<comment> \<open>case 3: red sibling\<close>
        (let pcnt' = 1 + countOf sr + nc
         in fixDoubleBlack (Frame R RED pk pv sr pcnt'
                              # Frame R pc sk sv sl (1 + countOf sl + pcnt') # upper) lower c0))"
  by pat_completeness auto
termination
  by (relation "measure (\<lambda>(upper, lower, c0). sum_list (map frameWeight upper))") auto

text \<open>
  The iterator's \<open>remove\<close>, lines 504 to 606. First the copy of the path, lines 510 to
  521: each node over the current one becomes a new node with the child on the path
  replaced.
\<close>

fun removeCopy :: "('k, 'v) node \<times> dir \<Rightarrow> ('k, 'v) frame" where
  "removeCopy (RBNode c k v l r cnt, L) = Frame L c k v r cnt"
| "removeCopy (RBNode c k v l r cnt, R) = Frame R c k v l cnt"
| "removeCopy (Null, d) = undefined"

text \<open>
  Lines 530 to 534 and 541 to 544: from the left child, the walk along right children to
  the previous node in order; the nodes passed are copied with their right child
  replaced. The result is these copies, the lowest first, and the node where the walk
  ends.
\<close>

fun walkRight :: "('k, 'v) node \<Rightarrow> ('k, 'v) frame list \<Rightarrow> ('k, 'v) frame list \<times> ('k, 'v) node" where
  "walkRight (RBNode c k v l r cnt) acc =
     (if r \<noteq> Null then walkRight r (Frame R c k v l cnt # acc)
      else (acc, RBNode c k v l r cnt))"
| "walkRight Null acc = (acc, Null)"

fun decrCount :: "('k, 'v) frame \<Rightarrow> ('k, 'v) frame" where
  "decrCount (Frame d c k v other cnt) = Frame d c k v other (cnt - 1)"

text \<open>
  Lines 549 to 605: the removal of the last node \<open>n\<close> of the copied path \<open>cstack\<close>, which
  has at most one child. The first argument is the comparator of the tree, the second
  the path over \<open>n\<close>, the parent first.
\<close>

fun removeLast :: "('k \<Rightarrow> 'k \<Rightarrow> int) \<Rightarrow> ('k, 'v) frame list \<Rightarrow> ('k, 'v) node
    \<Rightarrow> error + ('k, 'v) RedBlackTree" where
  "removeLast cmp cstack Null = Inl TypeError"
| "removeLast cmp cstack (RBNode nc nk nv nl nr ncnt) =
     (if nc = RED then
        \<comment> \<open>removing red leaf; \<open>p = cstack[cstack.length - 2]\<close> is read without a test\<close>
        (if cstack = [] then Inl TypeError
         else Inr \<lparr>compare = cmp, root = plug (map decrCount cstack) Null\<rparr>)
      else if nl \<noteq> Null \<or> nr \<noteq> Null then
        \<comment> \<open>single child black parent: \<open>swapNode\<close>, then the child's colour set to black\<close>
        Inr \<lparr>compare = cmp,
             root = plug (map decrCount cstack) (repaint BLACK (if nl \<noteq> Null then nl else nr))\<rparr>
      else if cstack = [] then
        \<comment> \<open>root\<close>
        Inr \<lparr>compare = cmp, root = Null\<rparr>
      else
        \<comment> \<open>black leaf no children\<close>
        (case fixDoubleBlack (map decrCount cstack) [] (ncnt - 1) of
           Inl e \<Rightarrow> Inl e
         | Inr path \<Rightarrow> Inr \<lparr>compare = cmp, root = plug path Null\<rparr>))"

text \<open>
  \<open>remove\<close> of the iterator: the empty stack returns the tree as it is; a node with two
  children first changes places with the previous node in order (lines 526 to 546): the
  copy of the node takes the key and value of that node, and the last entry of the path
  is a copy of that node with the key and value to remove.
\<close>

definition iter_remove :: "('k, 'v) RedBlackTreeIterator \<Rightarrow> error + ('k, 'v) RedBlackTree" where
  "iter_remove it =
     (case stack it of
        EmptyStack \<Rightarrow> Inr (tree it)
      | Stack anc Null \<Rightarrow> Inl TypeError
      | Stack anc (RBNode c k v l r cnt) \<Rightarrow>
          (let cstack = rev (map removeCopy anc)
           in if l \<noteq> Null \<and> r \<noteq> Null then
                (case walkRight l [] of
                   (fs, RBNode qc qk qv ql qr qcnt) \<Rightarrow>
                     removeLast (compare (tree it)) (fs @ Frame L c qk qv r cnt # cstack)
                       (RBNode qc k v ql qr qcnt)
                 | (fs, Null) \<Rightarrow> Inl TypeError)
              else removeLast (compare (tree it)) cstack (RBNode c k v l r cnt)))"

text \<open>
  \<open>remove(key)\<close> of the tree, lines 400 to 406: the iterator returned by \<open>find\<close> is an
  object, so the test \<open>if (iter)\<close> always holds.
\<close>

definition rbt_remove :: "('k, 'v) RedBlackTree \<Rightarrow> 'k \<Rightarrow> error + ('k, 'v) RedBlackTree" where
  "rbt_remove t key = iter_remove (rbt_find t key)"

text \<open>\<open>update\<close> of the iterator, lines 679 to 697.\<close>

definition iter_update :: "('k, 'v) RedBlackTreeIterator \<Rightarrow> 'v \<Rightarrow> error + ('k, 'v) RedBlackTree" where
  "iter_update it val =
     (case stack it of
        EmptyStack \<Rightarrow> Inl UpdateEmpty
      | Stack anc Null \<Rightarrow> Inl TypeError
      | Stack anc (RBNode c k v l r cnt) \<Rightarrow>
          Inr \<lparr>compare = compare (tree it),
               root = plug (rev (map removeCopy anc)) (RBNode c k val l r cnt)\<rparr>)"

section \<open>The compactor: manifest and file selection\<close>

text \<open>
  A file of a level, \<open>{i, range}\<close> in the manifest: the field \<open>i\<close> is \<open>fileI\<close> here and
  \<open>range\<close> is \<open>fileRange\<close> (both names are taken in HOL). A level is \<open>{files, comp}\<close>,
  here \<open>lvlFiles\<close> and \<open>lvlComp\<close>. Keys are compared with JavaScript's \<open><=\<close> and \<open>>=\<close>,
  a linear order on strings and on numbers.
\<close>

record 'k fileInfo =
  fileI :: nat
  fileRange :: "'k \<times> 'k"

record 'k level =
  lvlFiles :: "'k fileInfo list"
  lvlComp :: int

text \<open>
  \<open>_runCompaction\<close>, line 40:
  \<^verbatim>\<open>JSON.parse((fs.readFileSync(path) || new Buffer([])).toString("utf-8") || '{"inc": 0, "lvl": []}')\<close>.
  The result of \<open>fs.readFileSync\<close> is the first argument: \<open>Inl e\<close> when the call raises
  \<open>e\<close>, \<open>Inr s\<close> when it returns a buffer with the text \<open>s\<close>. A buffer is an object and so
  never falsy: the first \<open>||\<close> never takes its right side. The empty string is falsy: the
  second \<open>||\<close> replaces it by the text of the empty manifest, the second argument here.
  \<open>JSON.parse\<close> is the third argument.
\<close>

definition loadManifest :: "error + string \<Rightarrow> string \<Rightarrow> (string \<Rightarrow> error + 'm) \<Rightarrow> error + 'm" where
  "loadManifest readFileSync emptyManifest JSON_parse =
     (case readFileSync of
        Inl e \<Rightarrow> Inl e
      | Inr s \<Rightarrow> JSON_parse (if s = [] then emptyManifest else s))"

text \<open>
  The three tests of lines 141, 144 and 147 on a file of level \<open>i + 1\<close>, in the order of
  the source; \<open>fr\<close> is \<open>file.range\<close> and \<open>kr\<close> is \<open>keyRange\<close>.
\<close>

definition startInRange :: "'k::linorder \<times> 'k \<Rightarrow> 'k \<times> 'k \<Rightarrow> bool" where
  "startInRange fr kr = (fst fr \<ge> fst kr \<and> snd fr \<le> fst kr)"

definition endInRange :: "'k::linorder \<times> 'k \<Rightarrow> 'k \<times> 'k \<Rightarrow> bool" where
  "endInRange fr kr = (fst fr \<ge> snd kr \<and> snd fr \<le> snd kr)"

definition entirelyOverlapping :: "'k::linorder \<times> 'k \<Rightarrow> 'k \<times> 'k \<Rightarrow> bool" where
  "entirelyOverlapping fr kr = (fst fr \<ge> fst kr \<and> snd fr \<le> snd kr)"

text \<open>
  \<open>keyRange\<close> starts as \<open>[]\<close>, whose entries are \<open>undefined\<close>: every comparison with it is
  false. \<open>None\<close> is that empty array.
\<close>

definition isOverlapping :: "'k::linorder \<times> 'k \<Rightarrow> ('k \<times> 'k) option \<Rightarrow> bool" where
  "isOverlapping fr keyRange =
     (case keyRange of
        None \<Rightarrow> False
      | Some kr \<Rightarrow>
          (if startInRange fr kr then True
           else if endInRange fr kr then True
           else if entirelyOverlapping fr kr then True
           else False))"

text \<open>
  \<open>lvl.files.forEach((file, k) => { if (lvl.comp === k) ... })\<close>: the files whose
  position is the cursor, in the order of the array.
\<close>

definition filesAtCursor :: "'k fileInfo list \<Rightarrow> int \<Rightarrow> 'k fileInfo list" where
  "filesAtCursor fs c = map snd (filter (\<lambda>(k, file). c = int k) (enumerate 0 fs))"

text \<open>
  The branch of a level \<open>i \<ge> 1\<close> over its budget (lines 122 to 161), up to the call of the
  table generator. It returns the cursor after the pass and the calls it made, in order:
  each entry \<open>(l, f)\<close> stands for \<open>deleteFiles.push([l, f]); loadFile(f, l)\<close>, which the
  source always issues together. \<open>next\<close> is \<open>this._manifestData.lvl[i + 1]\<close>, \<open>None\<close> when
  there is no such level.
\<close>

definition wrapCursor :: "'k level \<Rightarrow> int" where
  "wrapCursor lvl = (if lvlComp lvl \<ge> int (length (lvlFiles lvl)) then 0 else lvlComp lvl)"

definition selectedRange :: "'k level \<Rightarrow> ('k \<times> 'k) option" where
  "selectedRange lvl =
     (case filesAtCursor (lvlFiles lvl) (wrapCursor lvl) of
        [] \<Rightarrow> None
      | fs \<Rightarrow> Some (fileRange (last fs)))"

definition compactUpperLevel ::
    "nat \<Rightarrow> 'k::linorder level \<Rightarrow> 'k level option \<Rightarrow> int \<times> (nat \<times> nat) list" where
  "compactUpperLevel i lvl next =
     (let comp0 = wrapCursor lvl;
          keyRange = selectedRange lvl;
          comp1 = comp0 + 1;
          older = (case next of
                     None \<Rightarrow> []
                   | Some nl \<Rightarrow>
                       map (\<lambda>file. (i + 1, fileI file))
                         (filter (\<lambda>file. isOverlapping (fileRange file) keyRange) (lvlFiles nl)));
          newest = map (\<lambda>file. (i, fileI file)) (filesAtCursor (lvlFiles lvl) comp1)
      in (comp1, older @ newest))"

section \<open>The compactor: loading a file into the merge buffer\<close>

text \<open>
  \<open>hasOlderValues(key, level)\<close>, lines 44 to 65. \<open>lvls\<close> is \<open>this._manifestData.lvl\<close>. The
  test of a file is its range first and then \<open>BloomFilter.contains\<close> on the filter that
  \<open>_getBloom\<close> reads for the file; that answer is the parameter \<open>bloom\<close>, a function of
  the file number and the key. \<open>nextLevel\<close> gets the levels from \<open>currentLevel\<close> on; the
  loop \<open>while (i--)\<close> visits the files of a level from the last to the first.
\<close>

definition mayHold :: "(nat \<Rightarrow> 'k \<Rightarrow> bool) \<Rightarrow> 'k::linorder \<Rightarrow> 'k fileInfo \<Rightarrow> bool" where
  "mayHold bloom key fileInfo =
     (fst (fileRange fileInfo) \<le> key \<and> snd (fileRange fileInfo) \<ge> key
      \<and> bloom (fileI fileInfo) key)"

fun nextLevel :: "(nat \<Rightarrow> 'k \<Rightarrow> bool) \<Rightarrow> 'k::linorder \<Rightarrow> 'k level list \<Rightarrow> bool" where
  "nextLevel bloom key [] = False"
| "nextLevel bloom key (lvl # rest) =
     (if list_ex (mayHold bloom key) (rev (lvlFiles lvl)) then True
      else nextLevel bloom key rest)"

definition hasOlderValues :: "(nat \<Rightarrow> 'k \<Rightarrow> bool) \<Rightarrow> 'k::linorder level list \<Rightarrow> 'k \<Rightarrow> nat \<Rightarrow> bool" where
  "hasOlderValues bloom lvls key level = nextLevel bloom key (drop (level + 1) lvls)"

text \<open>
  \<open>String.prototype.slice(start, end)\<close> on the text of the data file: a negative
  position counts from the end, and both are clipped to the text.
\<close>

definition slice :: "string \<Rightarrow> int \<Rightarrow> int \<Rightarrow> string" where
  "slice data start end =
     (let len = int (length data);
          from = (if start < 0 then max (len + start) 0 else min start len);
          to = (if end < 0 then max (len + end) 0 else min end len)
      in take (nat (to - from)) (drop (nat from) data))"

text \<open>
  \<open>loadFile(fileID, level)\<close>, lines 67 to 85. The parsed index file is the list of its
  keys in the order of \<open>Object.keys\<close>, each with its pair \<open>[offset, length]\<close>; \<open>data\<close> is
  the text of the data file and \<open>NULLBYTE\<close> the tombstone value of \<open>common\<close>. The merge
  buffer \<open>compactIndex\<close> is passed in and returned. Keys are inserted as they are (the
  key type of the store is the type \<open>'k\<close>).
\<close>

definition loadKey ::
    "(nat \<Rightarrow> 'k \<Rightarrow> bool) \<Rightarrow> 'k::linorder level list \<Rightarrow> string \<Rightarrow> string \<Rightarrow> nat
     \<Rightarrow> ('k, string) RedBlackTree \<Rightarrow> 'k \<times> int \<times> int \<Rightarrow> error + ('k, string) RedBlackTree" where
  "loadKey bloom lvls NULLBYTE data level compactIndex entry =
     (case entry of (key, offset, len) \<Rightarrow>
        if offset = - 1 then
          (if hasOlderValues bloom lvls key level
           then Inr (rbt_insert compactIndex key NULLBYTE)
           else rbt_remove compactIndex key)
        else Inr (rbt_insert compactIndex key (slice data offset (offset + len))))"

fun loadFile ::
    "(nat \<Rightarrow> 'k \<Rightarrow> bool) \<Rightarrow> 'k::linorder level list \<Rightarrow> string \<Rightarrow> string \<Rightarrow> nat
     \<Rightarrow> ('k, string) RedBlackTree \<Rightarrow> ('k \<times> int \<times> int) list \<Rightarrow> error + ('k, string) RedBlackTree" where
  "loadFile bloom lvls NULLBYTE data level compactIndex [] = Inr compactIndex"
| "loadFile bloom lvls NULLBYTE data level compactIndex (entry # entries) =
     (case loadKey bloom lvls NULLBYTE data level compactIndex entry of
        Inl e \<Rightarrow> Inl e
      | Inr t \<Rightarrow> loadFile bloom lvls NULLBYTE data level t entries)"

text \<open>
  The loop \<open>files.forEach((file) => { deleteFiles.push([l, file.i]); loadFile(file.i, l); })\<close>
  of lines 103 to 107 and 111 to 115. \<open>disk\<close> gives, for a file number, the parsed index
  file and the text of the data file.
\<close>

fun loadFiles ::
    "(nat \<Rightarrow> 'k \<Rightarrow> bool) \<Rightarrow> 'k::linorder level list \<Rightarrow> string
     \<Rightarrow> (nat \<Rightarrow> ('k \<times> int \<times> int) list \<times> string) \<Rightarrow> nat
     \<Rightarrow> ('k, string) RedBlackTree \<Rightarrow> 'k fileInfo list \<Rightarrow> error + ('k, string) RedBlackTree" where
  "loadFiles bloom lvls NULLBYTE disk level compactIndex [] = Inr compactIndex"
| "loadFiles bloom lvls NULLBYTE disk level compactIndex (file # files) =
     (case loadFile bloom lvls NULLBYTE (snd (disk (fileI file))) level compactIndex
             (fst (disk (fileI file))) of
        Inl e \<Rightarrow> Inl e
      | Inr t \<Rightarrow> loadFiles bloom lvls NULLBYTE disk level t files)"

text \<open>
  The branch of level 0 over its budget, lines 99 to 118, up to the call of the table
  generator: the files of level 1, if there is one, are loaded into the empty buffer of
  \<open>createRBTree()\<close>, then the files of level 0. The result is the buffer that
  \<open>tableGenerator(1, ...)\<close> writes out.
\<close>

definition compactLevel0 ::
    "(nat \<Rightarrow> 'k \<Rightarrow> bool) \<Rightarrow> 'k::linorder level list \<Rightarrow> string
     \<Rightarrow> (nat \<Rightarrow> ('k \<times> int \<times> int) list \<times> string) \<Rightarrow> error + ('k, string) RedBlackTree" where
  "compactLevel0 bloom lvls NULLBYTE disk =
     (case loadFiles bloom lvls NULLBYTE disk 1 (createRBTree defaultCompare)
             (if 1 < length lvls then lvlFiles (lvls ! 1) else []) of
        Inl e \<Rightarrow> Inl e
      | Inr t \<Rightarrow> loadFiles bloom lvls NULLBYTE disk 0 t (lvlFiles (lvls ! 0)))"

section \<open>Invariants of a tree\<close>

text \<open>
  The colour of a reference; \<open>null\<close> counts as black. \<open>entries\<close> lists the pairs of a
  tree in order, which is the order in which \<open>doVisitFull\<close> visits them.
\<close>

fun colorOf :: "('k, 'v) node \<Rightarrow> color" where
  "colorOf Null = BLACK"
| "colorOf (RBNode c k v l r cnt) = c"

fun entries :: "('k, 'v) node \<Rightarrow> ('k \<times> 'v) list" where
  "entries Null = []"
| "entries (RBNode c k v l r cnt) = entries l @ (k, v) # entries r"

text \<open>
  The red-black conditions. \<open>blackHeight\<close> counts the black nodes on the leftmost path;
  \<open>balanced\<close> says that at every node both subtrees have the same such number, so that
  every path to \<open>null\<close> passes the same number of black nodes. \<open>noRedRed\<close>: no red node
  has a red child. \<open>countsOk\<close>: at every node, \<open>_count\<close> is one more than the counts of
  the two subtrees. \<open>rbInv\<close> adds that the root is black.
\<close>

fun blackHeight :: "('k, 'v) node \<Rightarrow> nat" where
  "blackHeight Null = 0"
| "blackHeight (RBNode c k v l r cnt) = (if c = BLACK then Suc (blackHeight l) else blackHeight l)"

fun balanced :: "('k, 'v) node \<Rightarrow> bool" where
  "balanced Null = True"
| "balanced (RBNode c k v l r cnt) = (blackHeight l = blackHeight r \<and> balanced l \<and> balanced r)"

fun noRedRed :: "('k, 'v) node \<Rightarrow> bool" where
  "noRedRed Null = True"
| "noRedRed (RBNode c k v l r cnt) =
     ((c = RED \<longrightarrow> colorOf l = BLACK \<and> colorOf r = BLACK) \<and> noRedRed l \<and> noRedRed r)"

fun countsOk :: "('k, 'v) node \<Rightarrow> bool" where
  "countsOk Null = True"
| "countsOk (RBNode c k v l r cnt) = (cnt = 1 + countOf l + countOf r \<and> countsOk l \<and> countsOk r)"

definition rbInv :: "('k, 'v) node \<Rightarrow> bool" where
  "rbInv n = (colorOf n = BLACK \<and> noRedRed n \<and> balanced n \<and> countsOk n)"

text \<open>
  The number of black nodes on each path from a node to \<open>null\<close>, one number for each
  \<open>null\<close> child, from left to right.
\<close>

fun blackCounts :: "('k, 'v) node \<Rightarrow> nat list" where
  "blackCounts Null = [0]"
| "blackCounts (RBNode c k v l r cnt) =
     map (\<lambda>h. if c = BLACK then Suc h else h) (blackCounts l @ blackCounts r)"

text \<open>
  The same conditions for a path of frames that is to be closed by a subtree of black
  height \<open>h\<close>, root colour \<open>c0\<close> and count \<open>m\<close>; \<open>rootColor\<close> and \<open>rootCount\<close> are the
  colour and the count of the root of the closed path; \<open>entriesL\<close> and \<open>entriesR\<close> are the
  pairs to the left and to the right of the open place.
\<close>

fun pathHeights :: "('k, 'v) frame list \<Rightarrow> nat \<Rightarrow> bool" where
  "pathHeights [] h = True"
| "pathHeights (Frame d c k v other cnt # fs) h =
     (balanced other \<and> blackHeight other = h \<and> pathHeights fs (if c = BLACK then Suc h else h))"

fun pathColors :: "('k, 'v) frame list \<Rightarrow> color \<Rightarrow> bool" where
  "pathColors [] c0 = True"
| "pathColors (Frame d c k v other cnt # fs) c0 =
     ((c = RED \<longrightarrow> c0 = BLACK \<and> colorOf other = BLACK) \<and> noRedRed other \<and> pathColors fs c)"

fun pathCounts :: "('k, 'v) frame list \<Rightarrow> int \<Rightarrow> bool" where
  "pathCounts [] m = True"
| "pathCounts (Frame d c k v other cnt # fs) m =
     (cnt = 1 + m + countOf other \<and> countsOk other \<and> pathCounts fs cnt)"

fun rootColor :: "('k, 'v) frame list \<Rightarrow> color \<Rightarrow> color" where
  "rootColor [] c0 = c0"
| "rootColor (Frame d c k v other cnt # fs) c0 = rootColor fs c"

fun rootCount :: "('k, 'v) frame list \<Rightarrow> int \<Rightarrow> int" where
  "rootCount [] m = m"
| "rootCount (Frame d c k v other cnt # fs) m = rootCount fs cnt"

fun entriesL :: "('k, 'v) frame list \<Rightarrow> ('k \<times> 'v) list" where
  "entriesL [] = []"
| "entriesL (Frame L c k v other cnt # fs) = entriesL fs"
| "entriesL (Frame R c k v other cnt # fs) = entriesL fs @ entries other @ [(k, v)]"

fun entriesR :: "('k, 'v) frame list \<Rightarrow> ('k \<times> 'v) list" where
  "entriesR [] = []"
| "entriesR (Frame L c k v other cnt # fs) = (k, v) # entries other @ entriesR fs"
| "entriesR (Frame R c k v other cnt # fs) = entriesR fs"

text \<open>
  The copied path of \<open>insert\<close>, the parent of the new leaf first; insertion of a pair
  into a list ordered by key, in front of the first pair whose key is not smaller.
\<close>

definition insertPath :: "('k \<Rightarrow> 'k \<Rightarrow> int) \<Rightarrow> 'k \<Rightarrow> ('k, 'v) node \<Rightarrow> ('k, 'v) frame list" where
  "insertPath cmp key n = rev (map insertCopy (insertDescent cmp key n))"

fun ins_list :: "'k::linorder \<Rightarrow> 'v \<Rightarrow> ('k \<times> 'v) list \<Rightarrow> ('k \<times> 'v) list" where
  "ins_list k v [] = [(k, v)]"
| "ins_list k v ((a, b) # xs) = (if k \<le> a then (k, v) # (a, b) # xs else (a, b) # ins_list k v xs)"

text \<open>
  What the tree asks of a comparator, of which only the sign is read (\<open>d <= 0\<close>,
  \<open>d === 0\<close>): of two keys one is not after the other, and "not after" is transitive.
  Every comparator that is a total order has both, \<open>defaultCompare\<close> and the numeric
  \<open>a - b\<close> and \<open>b - a\<close> among them. A list of keys is ascending under a comparator when no
  key is after a later one.
\<close>

definition validComparator :: "('k \<Rightarrow> 'k \<Rightarrow> int) \<Rightarrow> bool" where
  "validComparator cmp =
     ((\<forall>a b. cmp a b \<le> 0 \<or> cmp b a \<le> 0)
      \<and> (\<forall>a b c. cmp a b \<le> 0 \<longrightarrow> cmp b c \<le> 0 \<longrightarrow> cmp a c \<le> 0))"

definition ascending :: "('k \<Rightarrow> 'k \<Rightarrow> int) \<Rightarrow> 'k list \<Rightarrow> bool" where
  "ascending cmp ks = sorted_wrt (\<lambda>a b. cmp a b \<le> 0) ks"

text \<open>
  A stack is a path of the tree with root \<open>rt\<close>: closing the copies of its entries by the
  current node gives \<open>rt\<close> back, and no entry is \<open>null\<close>. \<open>rankStep\<close> is what one entry of
  a stack adds to the index of the current node.
\<close>

definition validStack :: "('k, 'v) node \<Rightarrow> ('k, 'v) nstack \<Rightarrow> bool" where
  "validStack rt st =
     (case st of
        EmptyStack \<Rightarrow> True
      | Stack anc cur \<Rightarrow>
          cur \<noteq> Null \<and> (\<forall>e\<in>set anc. fst e \<noteq> Null) \<and> plug (rev (map removeCopy anc)) cur = rt)"

fun rankStep :: "('k, 'v) node \<times> dir \<Rightarrow> int" where
  "rankStep (RBNode c k v l r cnt, R) = 1 + countOf l"
| "rankStep (n, d) = 0"

text \<open>
  The trees that a program can build: the empty tree of \<open>createRBTree\<close>, and from a tree
  \<open>t\<close> the trees \<open>t.insert(key, value)\<close>, \<open>t.remove(key)\<close> and \<open>t.at(idx).remove()\<close>.
\<close>

inductive reachable :: "('k, 'v) RedBlackTree \<Rightarrow> bool" where
  empty: "reachable (createRBTree cmp)"
| insert: "reachable t \<Longrightarrow> reachable (rbt_insert t key val)"
| remove: "reachable t \<Longrightarrow> rbt_remove t key = Inr t' \<Longrightarrow> reachable t'"
| remove_at: "reachable t \<Longrightarrow> rbt_at t idx = Inr it \<Longrightarrow> iter_remove it = Inr t' \<Longrightarrow> reachable t'"

section \<open>The tree in a store of cells\<close>

text \<open>
  In the sections above a node is a value, and two versions of a tree that share a subtree
  cannot disturb each other whatever the code does. The JavaScript objects are mutable, and
  \<open>insert\<close>, \<open>remove\<close> and \<open>fixDoubleBlack\<close> do assign to fields of nodes. To say which
  nodes they assign to, the same code is read once more over a store: a node is a cell, its
  address is its position in the list of all cells, \<open>new RBNode(...)\<close> appends a cell, an
  assignment \<open>n.f = x\<close> replaces the cell at the address of \<open>n\<close>, \<open>null\<close> is \<open>None\<close>, and
  \<open>a === b\<close> on nodes compares addresses. A read or an assignment through \<open>null\<close> or
  \<open>undefined\<close> raises in JavaScript; here the operation has no result (\<open>None\<close>).
\<close>

record ('k, 'v) cell =
  cellColor :: color
  cellKey :: 'k
  cellValue :: 'v
  cellLeft :: "nat option"
  cellRight :: "nat option"
  cellCount :: int

type_synonym ('k, 'v) store = "('k, 'v) cell list"

text \<open>The constructor \<open>RBNode(color, key, value, left, right, count)\<close>, lines 4 to 13.\<close>

definition newCell :: "color \<Rightarrow> 'k \<Rightarrow> 'v \<Rightarrow> nat option \<Rightarrow> nat option \<Rightarrow> int \<Rightarrow> ('k, 'v) cell" where
  "newCell c k v l r n =
     \<lparr>cellColor = c, cellKey = k, cellValue = v, cellLeft = l, cellRight = r, cellCount = n\<rparr>"

definition rd :: "('k, 'v) store \<Rightarrow> nat \<Rightarrow> ('k, 'v) cell option" where
  "rd h a = (if a < length h then Some (h ! a) else None)"

definition wr :: "('k, 'v) store \<Rightarrow> nat \<Rightarrow> (('k, 'v) cell \<Rightarrow> ('k, 'v) cell) \<Rightarrow> ('k, 'v) store option" where
  "wr h a f = (if a < length h then Some (h[a := f (h ! a)]) else None)"

definition alloc :: "('k, 'v) store \<Rightarrow> ('k, 'v) cell \<Rightarrow> nat \<times> ('k, 'v) store" where
  "alloc h c = (length h, h @ [c])"

definition s_new :: "('k, 'v) store \<Rightarrow> ('k, 'v) cell \<Rightarrow> (nat \<times> ('k, 'v) store) option" where
  "s_new h c = Some (alloc h c)"

text \<open>Entry \<open>i\<close> of a JavaScript array of nodes; out of range it is \<open>undefined\<close>.\<close>

definition entry :: "nat list \<Rightarrow> nat \<Rightarrow> nat option" where
  "entry stk i = (if i < length stk then Some (stk ! i) else None)"

text \<open>\<open>n ? n._count : 0\<close> and \<open>n && n._color === RED\<close>.\<close>

definition countAt :: "('k, 'v) store \<Rightarrow> nat option \<Rightarrow> int option" where
  "countAt h r = (case r of None \<Rightarrow> Some 0 | Some a \<Rightarrow> map_option cellCount (rd h a))"

definition redAt :: "('k, 'v) store \<Rightarrow> nat option \<Rightarrow> bool option" where
  "redAt h r = (case r of None \<Rightarrow> Some False | Some a \<Rightarrow> map_option (\<lambda>c. cellColor c = RED) (rd h a))"

text \<open>
  The rebalancing code of \<open>insert\<close> and the whole of \<open>fixDoubleBlack\<close> are written twice,
  once for a path that goes on to the left and once, with \<open>left\<close> and \<open>right\<close> exchanged,
  for a path that goes on to the right. Here the side is a parameter \<open>d\<close>: \<open>near d\<close> is the
  field on the side of the path, \<open>far d\<close> is the other field.
\<close>

definition near :: "dir \<Rightarrow> ('k, 'v) cell \<Rightarrow> nat option" where
  "near d c = (case d of L \<Rightarrow> cellLeft c | R \<Rightarrow> cellRight c)"

definition far :: "dir \<Rightarrow> ('k, 'v) cell \<Rightarrow> nat option" where
  "far d c = (case d of L \<Rightarrow> cellRight c | R \<Rightarrow> cellLeft c)"

definition setNear :: "dir \<Rightarrow> nat option \<Rightarrow> ('k, 'v) cell \<Rightarrow> ('k, 'v) cell" where
  "setNear d x c = (case d of L \<Rightarrow> c\<lparr>cellLeft := x\<rparr> | R \<Rightarrow> c\<lparr>cellRight := x\<rparr>)"

definition setFar :: "dir \<Rightarrow> nat option \<Rightarrow> ('k, 'v) cell \<Rightarrow> ('k, 'v) cell" where
  "setFar d x c = (case d of L \<Rightarrow> c\<lparr>cellRight := x\<rparr> | R \<Rightarrow> c\<lparr>cellLeft := x\<rparr>)"

definition setColor :: "color \<Rightarrow> ('k, 'v) cell \<Rightarrow> ('k, 'v) cell" where
  "setColor col c = c\<lparr>cellColor := col\<rparr>"

text \<open>
  \<open>recount\<close> (lines 22 to 24) assigns to \<open>node._count\<close>; \<open>repaint\<close> (lines 19 to 21) and
  \<open>cloneNode\<close> (lines 16 to 18) allocate.
\<close>

definition s_recount :: "('k, 'v) store \<Rightarrow> nat \<Rightarrow> ('k, 'v) store option" where
  "s_recount h a = do {
     c \<leftarrow> rd h a;
     lc \<leftarrow> countAt h (cellLeft c);
     rc \<leftarrow> countAt h (cellRight c);
     wr h a (\<lambda>c. c\<lparr>cellCount := 1 + lc + rc\<rparr>)
   }"

definition s_repaint :: "('k, 'v) store \<Rightarrow> color \<Rightarrow> nat option \<Rightarrow> (nat \<times> ('k, 'v) store) option" where
  "s_repaint h col r = do {
     a \<leftarrow> r;
     c \<leftarrow> rd h a;
     Some (alloc h (setColor col c))
   }"

definition s_cloneNode :: "('k, 'v) store \<Rightarrow> nat option \<Rightarrow> (nat \<times> ('k, 'v) store) option" where
  "s_cloneNode h r = do {
     a \<leftarrow> r;
     c \<leftarrow> rd h a;
     s_new h c
   }"

subsection \<open>insert on the store\<close>

text \<open>
  Lines 53 to 66: the descent pushes the nodes met and the results of the comparisons. A
  store may hold a cycle, on which the loop of the source would not end, so the descent
  takes fuel and has no result when it runs out.
\<close>

fun s_descend :: "nat \<Rightarrow> ('k, 'v) store \<Rightarrow> ('k \<Rightarrow> 'k \<Rightarrow> int) \<Rightarrow> 'k \<Rightarrow> nat option
    \<Rightarrow> (nat list \<times> int list) option" where
  "s_descend fuel h cmp key None = Some ([], [])"
| "s_descend 0 h cmp key (Some a) = None"
| "s_descend (Suc fuel) h cmp key (Some a) = do {
     c \<leftarrow> rd h a;
     let d = cmp key (cellKey c);
     (ns, ds) \<leftarrow> s_descend fuel h cmp key (if d \<le> 0 then cellLeft c else cellRight c);
     Some (a # ns, d # ds)
   }"

text \<open>
  Lines 68 to 77: from the new leaf upwards, entry \<open>s\<close> of \<open>n_stack\<close> is replaced by a new
  node whose child on the side of the descent is entry \<open>s + 1\<close> and whose count is one more.
\<close>

fun s_rebuild :: "('k, 'v) store \<Rightarrow> nat list \<Rightarrow> int list \<Rightarrow> nat \<Rightarrow> (nat list \<times> ('k, 'v) store) option" where
  "s_rebuild h [] ds leaf = Some ([], h)"
| "s_rebuild h (a # ns) [] leaf = None"
| "s_rebuild h (a # ns) (d # ds) leaf = do {
     (ns', h1) \<leftarrow> s_rebuild h ns ds leaf;
     let lower = (case ns' of [] \<Rightarrow> leaf | b # bs \<Rightarrow> b);
     c \<leftarrow> rd h1 a;
     let (a', h2) = alloc h1 (if d \<le> 0 then c\<lparr>cellLeft := Some lower, cellCount := cellCount c + 1\<rparr>
                              else c\<lparr>cellRight := Some lower, cellCount := cellCount c + 1\<rparr>);
     Some (a' # ns', h2)
   }"

text \<open>
  The four pieces of the rebalancing loop, lines 80 to 221, for the grandparent \<open>pp\<close>, the
  parent \<open>p\<close> and the node \<open>n\<close> at entries \<open>s - 2\<close>, \<open>s - 1\<close> and \<open>s\<close>, with \<open>d = L\<close> when
  \<open>pp.left === p\<close>. \<open>relink\<close> is the assignment to the great-grandparent (\<open>if (s >= 3)\<close>);
  \<open>recolor\<close> is the case of a red uncle \<open>y\<close> (cases \<open>LLr\<close>, \<open>LRr\<close>, \<open>RRr\<close>, \<open>RLr\<close>, all with
  the same three assignments); \<open>rotSingle\<close> is \<open>LLb\<close> and \<open>RRb\<close>; \<open>rotDouble\<close> is \<open>LRb\<close>
  and \<open>RLb\<close>. The assignments are in the order of the source.
\<close>

definition relink :: "('k, 'v) store \<Rightarrow> nat list \<Rightarrow> nat \<Rightarrow> dir \<Rightarrow> nat \<Rightarrow> nat \<Rightarrow> ('k, 'v) store option" where
  "relink h stk s d pp x =
     (if s \<ge> 3 then do {
        ppp \<leftarrow> entry stk (s - 3);
        c \<leftarrow> rd h ppp;
        if near d c = Some pp then wr h ppp (setNear d (Some x)) else wr h ppp (setFar d (Some x))
      } else Some h)"

definition recolor :: "('k, 'v) store \<Rightarrow> dir \<Rightarrow> nat \<Rightarrow> nat \<Rightarrow> nat option \<Rightarrow> ('k, 'v) store option" where
  "recolor h d p pp y = do {
     h1 \<leftarrow> wr h p (setColor BLACK);
     (y', h2) \<leftarrow> s_repaint h1 BLACK y;
     h3 \<leftarrow> wr h2 pp (setFar d (Some y'));
     wr h3 pp (setColor RED)
   }"

definition rotSingle :: "('k, 'v) store \<Rightarrow> nat list \<Rightarrow> nat \<Rightarrow> dir \<Rightarrow> nat \<Rightarrow> nat \<Rightarrow> nat
    \<Rightarrow> (nat list \<times> ('k, 'v) store) option" where
  "rotSingle h stk s d p n pp = do {
     h1 \<leftarrow> wr h pp (setColor RED);
     pc \<leftarrow> rd h1 p;
     h2 \<leftarrow> wr h1 pp (setNear d (far d pc));
     h3 \<leftarrow> wr h2 p (setColor BLACK);
     h4 \<leftarrow> wr h3 p (setFar d (Some pp));
     let stk' = stk[s - 2 := p, s - 1 := n];
     h5 \<leftarrow> s_recount h4 pp;
     h6 \<leftarrow> s_recount h5 p;
     h7 \<leftarrow> relink h6 stk' s d pp p;
     Some (stk', h7)
   }"

definition rotDouble :: "('k, 'v) store \<Rightarrow> nat list \<Rightarrow> nat \<Rightarrow> dir \<Rightarrow> nat \<Rightarrow> nat \<Rightarrow> nat
    \<Rightarrow> (nat list \<times> ('k, 'v) store) option" where
  "rotDouble h stk s d p n pp = do {
     nc \<leftarrow> rd h n;
     h1 \<leftarrow> wr h p (setFar d (near d nc));
     h2 \<leftarrow> wr h1 pp (setColor RED);
     nc2 \<leftarrow> rd h2 n;
     h3 \<leftarrow> wr h2 pp (setNear d (far d nc2));
     h4 \<leftarrow> wr h3 n (setColor BLACK);
     h5 \<leftarrow> wr h4 n (setNear d (Some p));
     h6 \<leftarrow> wr h5 n (setFar d (Some pp));
     let stk' = stk[s - 2 := n, s - 1 := p];
     h7 \<leftarrow> s_recount h6 pp;
     h8 \<leftarrow> s_recount h7 p;
     h9 \<leftarrow> s_recount h8 n;
     h10 \<leftarrow> relink h9 stk' s d pp n;
     Some (stk', h10)
   }"

text \<open>
  The loop \<open>for (var s = n_stack.length - 1; s > 1; --s)\<close>. The red uncle is tested inside
  the test of \<open>p.left === n\<close> in the source and before it here; both branches of that test
  do the same for a red uncle. After \<open>recolor\<close> the source has \<open>s -= 1\<close> and the loop
  \<open>--s\<close>; every other case ends the loop.
\<close>

function s_rebalance :: "('k, 'v) store \<Rightarrow> nat list \<Rightarrow> nat \<Rightarrow> (nat list \<times> ('k, 'v) store) option" where
  "s_rebalance h stk s =
     (if s > 1 then do {
        p \<leftarrow> entry stk (s - 1);
        n \<leftarrow> entry stk s;
        pc \<leftarrow> rd h p;
        nc \<leftarrow> rd h n;
        if cellColor pc = BLACK \<or> cellColor nc = BLACK then Some (stk, h)
        else do {
          pp \<leftarrow> entry stk (s - 2);
          ppc \<leftarrow> rd h pp;
          let d = (if cellLeft ppc = Some p then L else R);
          yred \<leftarrow> redAt h (far d ppc);
          if yred then do {
            h' \<leftarrow> recolor h d p pp (far d ppc);
            s_rebalance h' stk (s - 2)
          }
          else if near d pc = Some n then rotSingle h stk s d p n pp
          else rotDouble h stk s d p n pp
        }
      } else Some (stk, h))"
  by pat_completeness auto
termination
  by (relation "measure (\<lambda>(h, stk, s). s)") auto

declare s_rebalance.simps [simp del]

text \<open>\<open>insert\<close>, lines 50 to 225; the result is the root of the new version and the store.\<close>

definition s_insert :: "nat \<Rightarrow> ('k \<Rightarrow> 'k \<Rightarrow> int) \<Rightarrow> ('k, 'v) store \<Rightarrow> nat option \<Rightarrow> 'k \<Rightarrow> 'v
    \<Rightarrow> (nat option \<times> ('k, 'v) store) option" where
  "s_insert fuel cmp h rt key val = do {
     (ns, ds) \<leftarrow> s_descend fuel h cmp key rt;
     let (leaf, h1) = alloc h \<lparr>cellColor = RED, cellKey = key, cellValue = val,
                               cellLeft = None, cellRight = None, cellCount = 1\<rparr>;
     (ns', h2) \<leftarrow> s_rebuild h1 ns ds leaf;
     (stk, h3) \<leftarrow> s_rebalance h2 (ns' @ [leaf]) (length ns');
     r \<leftarrow> entry stk 0;
     h4 \<leftarrow> wr h3 r (setColor BLACK);
     Some (Some r, h4)
   }"

subsection \<open>update and remove on the store\<close>

text \<open>
  Both start with a copy of the path of the iterator (lines 510 to 520 and 684 to 695): the
  last node is copied, by \<open>update\<close> with the new value, and every node above is copied with
  the copy below it in place of the child \<open>stack[i + 1]\<close>. The argument is the array
  \<open>_stack\<close> of the iterator, root first.
\<close>

fun s_copyPath :: "('k, 'v) store \<Rightarrow> nat list \<Rightarrow> (('k, 'v) cell \<Rightarrow> ('k, 'v) cell)
    \<Rightarrow> (nat list \<times> ('k, 'v) store) option" where
  "s_copyPath h [] f = None"
| "s_copyPath h [a] f = do {
     c \<leftarrow> rd h a;
     (a', h1) \<leftarrow> s_new h (f c);
     Some ([a'], h1)
   }"
| "s_copyPath h (a # b # rest) f = do {
     (cs, h1) \<leftarrow> s_copyPath h (b # rest) f;
     lower \<leftarrow> entry cs 0;
     c \<leftarrow> rd h1 a;
     (a', h2) \<leftarrow> s_new h1 (if cellLeft c = Some b then c\<lparr>cellLeft := Some lower\<rparr>
                             else c\<lparr>cellRight := Some lower\<rparr>);
     Some (a' # cs, h2)
   }"

text \<open>\<open>update\<close>, lines 679 to 697; on an empty iterator it throws.\<close>

definition s_update :: "('k, 'v) store \<Rightarrow> nat list \<Rightarrow> 'v \<Rightarrow> (nat option \<times> ('k, 'v) store) option" where
  "s_update h path val =
     (if path = [] then None
      else do {
        (cs, h1) \<leftarrow> s_copyPath h path (\<lambda>c. c\<lparr>cellValue := val\<rparr>);
        r \<leftarrow> entry cs 0;
        Some (Some r, h1)
      })"

text \<open>
  Lines 525 to 545, for a node with two children. The source pushes the nodes on the way
  to the predecessor on \<open>cstack\<close> (\<open>s_walkRight\<close>), pushes a copy of the predecessor that
  carries the key and value of the node to remove, writes the key and value of the
  predecessor into the copy of that node, and then replaces the pushed nodes by copies
  (\<open>s_copyRight\<close>). Between the push of a node and its replacement nothing is assigned
  through \<open>cstack\<close> but to entry \<open>split - 1\<close>, so here the copies are appended at once.
\<close>

fun s_walkRight :: "nat \<Rightarrow> ('k, 'v) store \<Rightarrow> nat \<Rightarrow> (nat list \<times> nat) option" where
  "s_walkRight 0 h a = None"
| "s_walkRight (Suc fuel) h a = do {
     c \<leftarrow> rd h a;
     case cellRight c of
       None \<Rightarrow> Some ([], a)
     | Some r \<Rightarrow> do {
         (ps, z) \<leftarrow> s_walkRight fuel h r;
         Some (a # ps, z)
       }
   }"

fun s_copyRight :: "('k, 'v) store \<Rightarrow> nat list \<Rightarrow> nat \<Rightarrow> (nat list \<times> ('k, 'v) store) option" where
  "s_copyRight h [] lower = Some ([], h)"
| "s_copyRight h (a # ps) lower = do {
     (cs, h1) \<leftarrow> s_copyRight h ps lower;
     c \<leftarrow> rd h1 a;
     (a', h2) \<leftarrow> s_new h1 (c\<lparr>cellRight := Some (case cs of [] \<Rightarrow> lower | b # bs \<Rightarrow> b)\<rparr>);
     Some (a' # cs, h2)
   }"

definition s_swapPred :: "nat \<Rightarrow> ('k, 'v) store \<Rightarrow> nat list \<Rightarrow> (nat list \<times> ('k, 'v) store) option" where
  "s_swapPred fuel h cs = do {
     v \<leftarrow> entry cs (length cs - 1);
     vc \<leftarrow> rd h v;
     l \<leftarrow> cellLeft vc;
     (ps, z) \<leftarrow> s_walkRight fuel h l;
     zc \<leftarrow> rd h z;
     (z', h1) \<leftarrow> s_new h (zc\<lparr>cellKey := cellKey vc, cellValue := cellValue vc\<rparr>);
     h2 \<leftarrow> wr h1 v (\<lambda>c. c\<lparr>cellKey := cellKey zc\<rparr>);
     h3 \<leftarrow> wr h2 v (\<lambda>c. c\<lparr>cellValue := cellValue zc\<rparr>);
     (ps', h4) \<leftarrow> s_copyRight h3 ps z';
     h5 \<leftarrow> wr h4 v (\<lambda>c. c\<lparr>cellLeft := Some (case ps' of [] \<Rightarrow> z' | b # bs \<Rightarrow> b)\<rparr>);
     Some (cs @ ps' @ [z'], h5)
   }"

text \<open>\<open>cstack[i]._count--\<close> for every entry of a list.\<close>

fun s_decr :: "('k, 'v) store \<Rightarrow> nat list \<Rightarrow> ('k, 'v) store option" where
  "s_decr h [] = Some h"
| "s_decr h (a # as) = do {
     h1 \<leftarrow> wr h a (\<lambda>c. c\<lparr>cellCount := cellCount c - 1\<rparr>);
     s_decr h1 as
   }"

text \<open>
  The cases of \<open>fixDoubleBlack\<close> (lines 748 to 953) for the node \<open>n\<close> at entry \<open>i\<close>, its
  parent \<open>p\<close> at entry \<open>i - 1\<close> and the sibling \<open>s\<close>, with \<open>d = L\<close> when \<open>p.left === n\<close>:
  \<open>fixFarRed\<close> is the first case (for \<open>d = L\<close>, "right sibling child red"), \<open>fixNearRed\<close>
  the second, \<open>fixRepaint\<close> the assignment \<open>p.right = repaint(RED, s)\<close> of the case of a
  black sibling, \<open>fixRedSibling\<close> the case of a red sibling, which moves \<open>p\<close> and \<open>n\<close> one
  entry down the array. The assignment to the grandparent (\<open>if (i > 1)\<close>, entry \<open>i - 2\<close>)
  is \<open>relink\<close> at \<open>i + 1\<close>.
\<close>

definition fixFarRed :: "('k, 'v) store \<Rightarrow> nat list \<Rightarrow> nat \<Rightarrow> dir \<Rightarrow> nat \<Rightarrow> nat \<Rightarrow> nat
    \<Rightarrow> (nat list \<times> ('k, 'v) store) option" where
  "fixFarRed h stk i d n p s = do {
     (s', h1) \<leftarrow> s_cloneNode h (Some s);
     h2 \<leftarrow> wr h1 p (setFar d (Some s'));
     sc \<leftarrow> rd h2 s';
     (z', h3) \<leftarrow> s_cloneNode h2 (far d sc);
     h4 \<leftarrow> wr h3 s' (setFar d (Some z'));
     sc2 \<leftarrow> rd h4 s';
     h5 \<leftarrow> wr h4 p (setFar d (near d sc2));
     h6 \<leftarrow> wr h5 s' (setNear d (Some p));
     h7 \<leftarrow> wr h6 s' (setFar d (Some z'));
     pc \<leftarrow> rd h7 p;
     h8 \<leftarrow> wr h7 s' (setColor (cellColor pc));
     h9 \<leftarrow> wr h8 n (setColor BLACK);
     h10 \<leftarrow> wr h9 p (setColor BLACK);
     h11 \<leftarrow> wr h10 z' (setColor BLACK);
     h12 \<leftarrow> s_recount h11 p;
     h13 \<leftarrow> s_recount h12 s';
     h14 \<leftarrow> relink h13 stk (i + 1) d p s';
     Some (stk[i - 1 := s'], h14)
   }"

definition fixNearRed :: "('k, 'v) store \<Rightarrow> nat list \<Rightarrow> nat \<Rightarrow> dir \<Rightarrow> nat \<Rightarrow> nat \<Rightarrow> nat
    \<Rightarrow> (nat list \<times> ('k, 'v) store) option" where
  "fixNearRed h stk i d n p s = do {
     (s', h1) \<leftarrow> s_cloneNode h (Some s);
     h2 \<leftarrow> wr h1 p (setFar d (Some s'));
     sc \<leftarrow> rd h2 s';
     (z', h3) \<leftarrow> s_cloneNode h2 (near d sc);
     h4 \<leftarrow> wr h3 s' (setNear d (Some z'));
     zc \<leftarrow> rd h4 z';
     h5 \<leftarrow> wr h4 p (setFar d (near d zc));
     zc2 \<leftarrow> rd h5 z';
     h6 \<leftarrow> wr h5 s' (setNear d (far d zc2));
     h7 \<leftarrow> wr h6 z' (setNear d (Some p));
     h8 \<leftarrow> wr h7 z' (setFar d (Some s'));
     pc \<leftarrow> rd h8 p;
     h9 \<leftarrow> wr h8 z' (setColor (cellColor pc));
     h10 \<leftarrow> wr h9 p (setColor BLACK);
     h11 \<leftarrow> wr h10 s' (setColor BLACK);
     h12 \<leftarrow> wr h11 n (setColor BLACK);
     h13 \<leftarrow> s_recount h12 p;
     h14 \<leftarrow> s_recount h13 s';
     h15 \<leftarrow> s_recount h14 z';
     h16 \<leftarrow> relink h15 stk (i + 1) d p z';
     Some (stk[i - 1 := z'], h16)
   }"

definition fixRepaint :: "('k, 'v) store \<Rightarrow> dir \<Rightarrow> nat \<Rightarrow> nat \<Rightarrow> ('k, 'v) store option" where
  "fixRepaint h d p s = do {
     (s', h1) \<leftarrow> s_repaint h RED (Some s);
     wr h1 p (setFar d (Some s'))
   }"

definition fixRedSibling :: "('k, 'v) store \<Rightarrow> nat list \<Rightarrow> nat \<Rightarrow> dir \<Rightarrow> nat \<Rightarrow> nat \<Rightarrow> nat
    \<Rightarrow> (nat list \<times> ('k, 'v) store) option" where
  "fixRedSibling h stk i d n p s = do {
     (s', h1) \<leftarrow> s_cloneNode h (Some s);
     sc \<leftarrow> rd h1 s';
     h2 \<leftarrow> wr h1 p (setFar d (near d sc));
     h3 \<leftarrow> wr h2 s' (setNear d (Some p));
     pc \<leftarrow> rd h3 p;
     h4 \<leftarrow> wr h3 s' (setColor (cellColor pc));
     h5 \<leftarrow> wr h4 p (setColor RED);
     h6 \<leftarrow> s_recount h5 p;
     h7 \<leftarrow> s_recount h6 s';
     h8 \<leftarrow> relink h7 stk (i + 1) d p s';
     let stk1 = stk[i - 1 := s', i := p];
     Some (if i + 1 < length stk1 then stk1[i + 1 := n] else stk1 @ [n], h8)
   }"

text \<open>
  The loop \<open>for (var i = stack.length - 1; i >= 0; --i)\<close>. After the case of a red sibling
  the source has \<open>i = i + 2\<close> and the loop \<open>--i\<close>, so the index can grow, and on a store
  that is not a red-black tree nothing bounds the number of rounds: the loop takes fuel.
\<close>

fun s_fixDoubleBlack :: "nat \<Rightarrow> ('k, 'v) store \<Rightarrow> nat list \<Rightarrow> nat \<Rightarrow> (nat list \<times> ('k, 'v) store) option" where
  "s_fixDoubleBlack 0 h stk i = None"
| "s_fixDoubleBlack (Suc fuel) h stk i = do {
     n \<leftarrow> entry stk i;
     if i = 0 then do {
       h1 \<leftarrow> wr h n (setColor BLACK);
       Some (stk, h1)
     }
     else do {
       p \<leftarrow> entry stk (i - 1);
       pc \<leftarrow> rd h p;
       let d = (if cellLeft pc = Some n then L else R);
       s \<leftarrow> far d pc;
       sc \<leftarrow> rd h s;
       farRed \<leftarrow> redAt h (far d sc);
       nearRed \<leftarrow> redAt h (near d sc);
       if farRed then fixFarRed h stk i d n p s
       else if nearRed then fixNearRed h stk i d n p s
       else if cellColor sc = BLACK then
         (if cellColor pc = RED then do {
            h1 \<leftarrow> wr h p (setColor BLACK);
            h2 \<leftarrow> fixRepaint h1 d p s;
            Some (stk, h2)
          }
          else do {
            h1 \<leftarrow> fixRepaint h d p s;
            s_fixDoubleBlack fuel h1 stk (i - 1)
          })
       else do {
         (stk', h1) \<leftarrow> fixRedSibling h stk i d n p s;
         s_fixDoubleBlack fuel h1 stk' (i + 1)
       }
     }
   }"

text \<open>
  Lines 548 to 605, the removal of the last entry of \<open>cstack\<close>: a red leaf is unlinked from
  its parent; a black node with one child takes the fields of the child (\<open>swapNode\<close>, lines
  737 to 744) and is painted black; a lone root gives the empty tree; a black leaf is
  unlinked after \<open>fixDoubleBlack\<close>. For a red node on a path of length one the source reads
  \<open>cstack[-1].left\<close> and raises.
\<close>

definition s_removeLeaf :: "nat \<Rightarrow> ('k, 'v) store \<Rightarrow> nat list \<Rightarrow> (nat option \<times> ('k, 'v) store) option" where
  "s_removeLeaf fuel h cs = do {
     n \<leftarrow> entry cs (length cs - 1);
     nc \<leftarrow> rd h n;
     if cellColor nc = RED then
       (if length cs < 2 then None
        else do {
          p \<leftarrow> entry cs (length cs - 2);
          pc \<leftarrow> rd h p;
          h1 \<leftarrow> (if cellLeft pc = Some n then wr h p (\<lambda>c. c\<lparr>cellLeft := None\<rparr>)
                 else if cellRight pc = Some n then wr h p (\<lambda>c. c\<lparr>cellRight := None\<rparr>)
                 else Some h);
          h2 \<leftarrow> s_decr h1 (butlast cs);
          r \<leftarrow> entry cs 0;
          Some (Some r, h2)
        })
     else if cellLeft nc \<noteq> None \<or> cellRight nc \<noteq> None then do {
       v \<leftarrow> (case cellLeft nc of Some l \<Rightarrow> Some l | None \<Rightarrow> cellRight nc);
       vc \<leftarrow> rd h v;
       h1 \<leftarrow> wr h n (\<lambda>c. vc);
       h2 \<leftarrow> wr h1 n (setColor BLACK);
       h3 \<leftarrow> s_decr h2 (butlast cs);
       r \<leftarrow> entry cs 0;
       Some (Some r, h3)
     }
     else if length cs = 1 then Some (None, h)
     else do {
       h1 \<leftarrow> s_decr h cs;
       parent \<leftarrow> entry cs (length cs - 2);
       (stk, h2) \<leftarrow> s_fixDoubleBlack fuel h1 cs (length cs - 1);
       pc \<leftarrow> rd h2 parent;
       h3 \<leftarrow> (if cellLeft pc = Some n then wr h2 parent (\<lambda>c. c\<lparr>cellLeft := None\<rparr>)
              else wr h2 parent (\<lambda>c. c\<lparr>cellRight := None\<rparr>));
       r \<leftarrow> entry stk 0;
       Some (Some r, h3)
     }
   }"

text \<open>
  \<open>remove\<close> of an iterator, lines 504 to 606; \<open>rt\<close> is the root of the tree of the
  iterator, which an empty iterator returns.
\<close>

definition s_remove :: "nat \<Rightarrow> ('k, 'v) store \<Rightarrow> nat option \<Rightarrow> nat list
    \<Rightarrow> (nat option \<times> ('k, 'v) store) option" where
  "s_remove fuel h rt path =
     (if path = [] then Some (rt, h)
      else do {
        (cs, h1) \<leftarrow> s_copyPath h path (\<lambda>c. c);
        n \<leftarrow> entry cs (length cs - 1);
        nc \<leftarrow> rd h1 n;
        (cs2, h2) \<leftarrow> (if cellLeft nc \<noteq> None \<and> cellRight nc \<noteq> None then s_swapPred fuel h1 cs
                      else Some (cs, h1));
        s_removeLeaf fuel h2 cs2
      })"

text \<open>
  \<open>find\<close> (lines 380 to 398) gives the array of the iterator, empty when the key is not
  met, and \<open>remove\<close> of a tree (lines 400 to 406) is \<open>find\<close> and then \<open>remove\<close> of the
  iterator.
\<close>

fun s_find :: "nat \<Rightarrow> ('k, 'v) store \<Rightarrow> ('k \<Rightarrow> 'k \<Rightarrow> int) \<Rightarrow> 'k \<Rightarrow> nat option \<Rightarrow> nat list option" where
  "s_find fuel h cmp key None = Some []"
| "s_find 0 h cmp key (Some a) = None"
| "s_find (Suc fuel) h cmp key (Some a) = do {
     c \<leftarrow> rd h a;
     let d = cmp key (cellKey c);
     if d = 0 then Some [a]
     else do {
       rest \<leftarrow> s_find fuel h cmp key (if d \<le> 0 then cellLeft c else cellRight c);
       Some (if rest = [] then [] else a # rest)
     }
   }"

definition s_removeKey :: "nat \<Rightarrow> ('k \<Rightarrow> 'k \<Rightarrow> int) \<Rightarrow> ('k, 'v) store \<Rightarrow> nat option \<Rightarrow> 'k
    \<Rightarrow> (nat option \<times> ('k, 'v) store) option" where
  "s_removeKey fuel cmp h rt key = do {
     path \<leftarrow> s_find fuel h cmp key rt;
     s_remove fuel h rt path
   }"

text \<open>
  \<open>at\<close>, lines 264 to 294, gives the array of the iterator as well, empty when the index
  is out of range; the loop reads \<open>n.left\<close> of the node it has pushed and raises when that
  node is \<open>null\<close>. \<open>idx1\<close> is \<open>idx\<close> after \<open>idx -= n.left._count\<close>.
\<close>

fun s_atLoop :: "nat \<Rightarrow> ('k, 'v) store \<Rightarrow> nat option \<Rightarrow> int \<Rightarrow> nat list option" where
  "s_atLoop 0 h r idx = None"
| "s_atLoop (Suc fuel) h r idx = do {
     a \<leftarrow> r;
     c \<leftarrow> rd h a;
     (goLeft, idx1) \<leftarrow> (case cellLeft c of
         None \<Rightarrow> Some (False, idx)
       | Some l \<Rightarrow> do {
           lc \<leftarrow> rd h l;
           Some (if idx < cellCount lc then (True, idx) else (False, idx - cellCount lc))
         });
     if goLeft then do {
       rest \<leftarrow> s_atLoop fuel h (cellLeft c) idx;
       Some (if rest = [] then [] else a # rest)
     }
     else if idx1 = 0 then Some [a]
     else (case cellRight c of
         None \<Rightarrow> Some []
       | Some r' \<Rightarrow> do {
           rc \<leftarrow> rd h r';
           if idx1 - 1 \<ge> cellCount rc then Some []
           else do {
             rest \<leftarrow> s_atLoop fuel h (Some r') (idx1 - 1);
             Some (if rest = [] then [] else a # rest)
           }
         })
   }"

definition s_at :: "nat \<Rightarrow> ('k, 'v) store \<Rightarrow> nat option \<Rightarrow> int \<Rightarrow> nat list option" where
  "s_at fuel h rt idx = (if idx < 0 then Some [] else s_atLoop fuel h rt idx)"

subsection \<open>Versions and what they denote\<close>

text \<open>
  The operations that give a new version of a tree whose root is \<open>rt\<close>: \<open>insert\<close> and
  \<open>remove\<close> of the tree, \<open>remove\<close> and \<open>update\<close> of an iterator with a given array.
\<close>

datatype ('k, 'v) operation =
  Insert 'k 'v | Remove 'k | IterRemove "nat list" | IterUpdate "nat list" 'v

fun s_apply :: "nat \<Rightarrow> ('k \<Rightarrow> 'k \<Rightarrow> int) \<Rightarrow> ('k, 'v) store \<Rightarrow> nat option \<Rightarrow> ('k, 'v) operation
    \<Rightarrow> (nat option \<times> ('k, 'v) store) option" where
  "s_apply fuel cmp h rt (Insert key val) = s_insert fuel cmp h rt key val"
| "s_apply fuel cmp h rt (Remove key) = s_removeKey fuel cmp h rt key"
| "s_apply fuel cmp h rt (IterRemove path) = s_remove fuel h rt path"
| "s_apply fuel cmp h rt (IterUpdate path val) = s_update h path val"

text \<open>
  The tree that a root denotes in a store, down to a depth: the value that the sections
  above call a node. \<open>get\<close>, \<open>keys\<close>, \<open>values\<close>, \<open>forEach\<close> and \<open>length\<close> read the tree
  from the root, assign nothing and return keys, values and counts, so what they return
  is a function of this value. \<open>find\<close> and \<open>at\<close> return nodes, and are given on the
  store above.
\<close>

fun s_tree :: "nat \<Rightarrow> ('k, 'v) store \<Rightarrow> nat option \<Rightarrow> ('k, 'v) node option" where
  "s_tree fuel h None = Some Null"
| "s_tree 0 h (Some a) = None"
| "s_tree (Suc fuel) h (Some a) = do {
     c \<leftarrow> rd h a;
     l \<leftarrow> s_tree fuel h (cellLeft c);
     r \<leftarrow> s_tree fuel h (cellRight c);
     Some (RBNode (cellColor c) (cellKey c) (cellValue c) l r (cellCount c))
   }"

text \<open>
  \<open>ext base h0 h\<close>: the store \<open>h\<close> is \<open>h0\<close> with its first \<open>base\<close> cells as they were, and
  perhaps changed or new cells after them.
\<close>

definition ext :: "nat \<Rightarrow> ('k, 'v) store \<Rightarrow> ('k, 'v) store \<Rightarrow> bool" where
  "ext base h h' = (base \<le> length h \<and> length h \<le> length h' \<and> take base h' = take base h)"

text \<open>
  An example store: the tree that four inserts of the keys 1 to 4 build, with the root,
  key 2, in cell 3.
\<close>

definition store1234 :: "(int, int) store" where
  "store1234 = [newCell BLACK 1 10 None None 1, newCell RED 4 40 None None 1,
                newCell BLACK 3 30 None (Some 1) 2, newCell BLACK 2 20 (Some 0) (Some 2) 4]"

section \<open>Paths and invariants\<close>

lemma dir_neq [simp]: "(d \<noteq> L) = (d = R)" "(d \<noteq> R) = (d = L)"
  by (cases d; simp)+

lemma color_neq [simp]: "(c \<noteq> BLACK) = (c = RED)" "(c \<noteq> RED) = (c = BLACK)"
  by (cases c; simp)+

lemma isRed_colorOf: "isRed n = (colorOf n = RED)"
  by (cases n rule: isRed.cases) auto

lemma balanced_plug: "balanced (plug fs n) = (balanced n \<and> pathHeights fs (blackHeight n))"
proof (induction fs n rule: plug.induct)
  case (1 n) show ?case by simp
next
  case (2 c k v other cnt fs n) then show ?case by (cases c) auto
next
  case (3 c k v other cnt fs n) then show ?case by (cases c) auto
qed

lemma noRedRed_plug: "noRedRed (plug fs n) = (noRedRed n \<and> pathColors fs (colorOf n))"
  by (induction fs n rule: plug.induct) auto

lemma countsOk_plug: "countsOk (plug fs n) = (countsOk n \<and> pathCounts fs (countOf n))"
  by (induction fs n rule: plug.induct) auto

lemma entries_plug: "entries (plug fs n) = entriesL fs @ entries n @ entriesR fs"
  by (induction fs n rule: plug.induct) auto

lemma insertPath_simps:
  "insertPath cmp key Null = []"
  "cmp key k \<le> 0 \<Longrightarrow> insertPath cmp key (RBNode c k v l r cnt) = insertPath cmp key l @ [Frame L c k v r (cnt + 1)]"
  "\<not> cmp key k \<le> 0 \<Longrightarrow> insertPath cmp key (RBNode c k v l r cnt) = insertPath cmp key r @ [Frame R c k v l (cnt + 1)]"
  by (simp_all add: insertPath_def Let_def)

lemma colorOf_repaint [simp]: "n \<noteq> Null \<Longrightarrow> colorOf (repaint c n) = c"
  by (cases n) auto

lemma entries_repaint [simp]: "entries (repaint c n) = entries n"
  by (cases n) auto

lemma blackHeight_repaint_BLACK: "isRed n \<Longrightarrow> blackHeight (repaint BLACK n) = Suc (blackHeight n)"
  by (cases n rule: isRed.cases) auto

lemma balanced_repaint [simp]: "balanced (repaint c n) = balanced n"
  by (cases n) auto

lemma countsOk_repaint [simp]: "countsOk (repaint c n) = countsOk n"
  by (cases n) auto

lemma countOf_repaint [simp]: "countOf (repaint c n) = countOf n"
  by (cases n) auto

lemma noRedRed_repaint_BLACK: "noRedRed n \<Longrightarrow> noRedRed (repaint BLACK n)"
  by (cases n) auto

lemma pathHeights_insertPath:
  "balanced n \<Longrightarrow> pathHeights fs (blackHeight n) \<Longrightarrow> pathHeights (insertPath cmp key n @ fs) 0"
proof (induction n arbitrary: fs)
  case Null then show ?case by (simp add: insertPath_simps)
next
  case (RBNode c k v l r cnt)
  show ?case
  proof (cases "cmp key k \<le> 0")
    case True
    have "pathHeights (Frame L c k v r (cnt + 1) # fs) (blackHeight l)"
      using RBNode.prems by (cases c) auto
    with RBNode.IH(1)[of "Frame L c k v r (cnt + 1) # fs"] RBNode.prems True
    show ?thesis by (simp add: insertPath_simps)
  next
    case False
    have "pathHeights (Frame R c k v l (cnt + 1) # fs) (blackHeight r)"
      using RBNode.prems by (cases c) auto
    with RBNode.IH(2)[of "Frame R c k v l (cnt + 1) # fs"] RBNode.prems False
    show ?thesis by (simp add: insertPath_simps)
  qed
qed

lemma pathColors_weaken: "pathColors fs c0 \<Longrightarrow> pathColors fs BLACK"
  by (cases "(fs, c0)" rule: pathColors.cases) auto

lemma pathColors_insertPath:
  "noRedRed n \<Longrightarrow> pathColors fs (colorOf n) \<Longrightarrow> pathColors (insertPath cmp key n @ fs) BLACK"
proof (induction n arbitrary: fs)
  case Null then show ?case by (simp add: insertPath_simps)
next
  case (RBNode c k v l r cnt)
  show ?case
  proof (cases "cmp key k \<le> 0")
    case True
    have "pathColors (Frame L c k v r (cnt + 1) # fs) (colorOf l)"
      using RBNode.prems by auto
    with RBNode.IH(1)[of "Frame L c k v r (cnt + 1) # fs"] RBNode.prems True
    show ?thesis by (simp add: insertPath_simps)
  next
    case False
    have "pathColors (Frame R c k v l (cnt + 1) # fs) (colorOf r)"
      using RBNode.prems by auto
    with RBNode.IH(2)[of "Frame R c k v l (cnt + 1) # fs"] RBNode.prems False
    show ?thesis by (simp add: insertPath_simps)
  qed
qed

lemma pathCounts_insertPath:
  "countsOk n \<Longrightarrow> pathCounts fs (countOf n + 1) \<Longrightarrow> pathCounts (insertPath cmp key n @ fs) 1"
proof (induction n arbitrary: fs)
  case Null then show ?case by (simp add: insertPath_simps)
next
  case (RBNode c k v l r cnt)
  show ?case
  proof (cases "cmp key k \<le> 0")
    case True
    have "pathCounts (Frame L c k v r (cnt + 1) # fs) (countOf l + 1)"
      using RBNode.prems by auto
    with RBNode.IH(1)[of "Frame L c k v r (cnt + 1) # fs"] RBNode.prems True
    show ?thesis by (simp add: insertPath_simps)
  next
    case False
    have "pathCounts (Frame R c k v l (cnt + 1) # fs) (countOf r + 1)"
      using RBNode.prems by auto
    with RBNode.IH(2)[of "Frame R c k v l (cnt + 1) # fs"] RBNode.prems False
    show ?thesis by (simp add: insertPath_simps ac_simps)
  qed
qed

lemma entries_insertRebalance: "entries (insertRebalance fs n) = entries (plug fs n)"
  by (induction fs n rule: insertRebalance.induct)
     (auto simp: entries_plug recount_def Let_def split: dir.splits)

lemma isRed_cases: "isRed y \<Longrightarrow> \<exists>k v l r cnt. y = RBNode RED k v l r cnt"
  by (cases y rule: isRed.cases) auto

lemma not_isRed_colorOf: "\<not> isRed y \<Longrightarrow> colorOf y = BLACK"
  by (cases y rule: isRed.cases) auto

lemma plug_not_Null: "t \<noteq> Null \<Longrightarrow> plug fs t \<noteq> Null"
  by (induction fs t rule: plug.induct) auto

lemma shape_insertRebalance:
  "balanced n \<Longrightarrow> noRedRed n \<Longrightarrow> n \<noteq> Null \<Longrightarrow> colorOf n = RED \<Longrightarrow>
   pathHeights fs (blackHeight n) \<Longrightarrow> pathColors fs BLACK \<Longrightarrow>
   balanced (insertRebalance fs n) \<and> noRedRed (repaint BLACK (insertRebalance fs n))
   \<and> insertRebalance fs n \<noteq> Null"
proof (induction fs n rule: insertRebalance.induct[case_names step nil single null])
  case (step pd pc pk pv ps pcnt ppd ppc ppk ppv y ppcnt rest nc nk nv nl nr ncnt)
  let ?n = "RBNode nc nk nv nl nr ncnt"
  let ?fs = "Frame pd pc pk pv ps pcnt # Frame ppd ppc ppk ppv y ppcnt # rest"
  have nc: "nc = RED" using step.prems by simp
  show ?case
  proof (cases "pc = BLACK")
    case True
    have "pathColors ?fs RED" using step.prems True by simp
    then have "noRedRed (plug ?fs ?n)" "balanced (plug ?fs ?n)"
      using step.prems by (simp_all only: noRedRed_plug balanced_plug colorOf.simps nc simp_thms)
    moreover have "plug ?fs ?n \<noteq> Null" by (rule plug_not_Null) simp
    ultimately show ?thesis using True by (simp add: noRedRed_repaint_BLACK)
  next
    case False
    then have pc: "pc = RED" by simp
    then have ppc: "ppc = BLACK" using step.prems by (cases ppc) auto
    show ?thesis
    proof (cases "isRed y")
      case True
      then obtain yk yv yl yr ycnt where y: "y = RBNode RED yk yv yl yr ycnt"
        using isRed_cases by blast
      show ?thesis
        using step.IH(1,2,3,4) step.prems pc ppc nc True y
        by (cases ppd; cases pd) (simp_all)
    next
      case False
      then have yb: "colorOf y = BLACK" by (rule not_isRed_colorOf)
      show ?thesis
        using step.prems pc ppc nc False yb
        by (cases ppd; cases pd)
           (auto simp: recount_def balanced_plug noRedRed_plug plug_not_Null
                 intro!: noRedRed_repaint_BLACK)
    qed
  qed
next
  case (nil n)
  then show ?case by (cases n) auto
next
  case (single v n)
  then show ?case
    by (cases "([v], n)" rule: plug.cases; cases n) auto
next
  case (null fs)
  then show ?case by simp
qed

lemma countOf_plug_cong: "countOf a = countOf b \<Longrightarrow> countOf (plug fs a) = countOf (plug fs b)"
proof (induction fs arbitrary: a b)
  case Nil then show ?case by simp
next
  case (Cons f fs)
  show ?case
    by (cases "(f # fs, a)" rule: plug.cases) (auto intro: Cons.IH)
qed

lemma counts_insertRebalance:
  "countsOk n \<Longrightarrow> pathCounts fs (countOf n) \<Longrightarrow>
   countsOk (insertRebalance fs n) \<and> countOf (insertRebalance fs n) = countOf (plug fs n)"
proof (induction fs n rule: insertRebalance.induct[case_names step nil single null])
  case (step pd pc pk pv ps pcnt ppd ppc ppk ppv y ppcnt rest nc nk nv nl nr ncnt)
  let ?n = "RBNode nc nk nv nl nr ncnt"
  let ?fs = "Frame pd pc pk pv ps pcnt # Frame ppd ppc ppk ppv y ppcnt # rest"
  show ?case
  proof (cases "pc = BLACK \<or> nc = BLACK")
    case True
    then have "insertRebalance ?fs ?n = plug ?fs ?n" by simp
    then show ?thesis using step.prems by (simp only: countsOk_plug simp_thms)
  next
    case False
    show ?thesis
    proof (cases "isRed y")
      case True
      show ?thesis
        using step.IH(1,2,3,4) step.prems False True
        by (cases ppd; cases pd) (auto intro!: countOf_plug_cong)
    next
      case yb: False
      show ?thesis
        using step.prems False yb
        by (cases ppd; cases pd)
           (auto simp: recount_def countsOk_plug ac_simps intro!: countOf_plug_cong)
    qed
  qed
next
  case (nil n)
  then show ?case by simp
next
  case (single v n)
  then show ?case by (simp add: countsOk_plug)
next
  case (null fs)
  then show ?case by (simp add: countsOk_plug)
qed

lemma countOf_plug_snoc: "countOf (plug (fs @ [Frame d c k v other cnt]) n) = cnt"
  by (induction fs n rule: plug.induct) (cases d; simp)+

lemma countOf_plug_insertPath:
  "countOf (plug (insertPath cmp key n) (RBNode RED key val Null Null 1)) = countOf n + 1"
proof (cases n)
  case Null then show ?thesis by (simp add: insertPath_simps)
next
  case (RBNode c k v l r cnt)
  then show ?thesis
    by (cases "cmp key k \<le> 0") (simp_all add: insertPath_simps countOf_plug_snoc)
qed

lemma ins_list_left: "k \<le> a \<Longrightarrow> ins_list k v (xs @ (a, b) # ys) = ins_list k v xs @ (a, b) # ys"
  by (induction xs) auto

lemma ins_list_right:
  "\<forall>x\<in>set xs. fst x < k \<Longrightarrow> ins_list k v (xs @ ys) = xs @ ins_list k v ys"
  by (induction xs) auto

lemma entries_insertPath:
  "sorted (map fst (entries n)) \<Longrightarrow>
   entriesL (insertPath defaultCompare key n @ fs) @ (key, val) # entriesR (insertPath defaultCompare key n @ fs)
   = entriesL fs @ ins_list key val (entries n) @ entriesR fs"
proof (induction n arbitrary: fs)
  case Null then show ?case by (simp add: insertPath_simps)
next
  case (RBNode c k v l r cnt)
  have sl: "sorted (map fst (entries l))" and sr: "sorted (map fst (entries r))"
    using RBNode.prems by (auto simp: sorted_append)
  show ?case
  proof (cases "key \<le> k")
    case True
    then have d: "defaultCompare key k \<le> 0" by (simp add: defaultCompare_def)
    show ?thesis
      using RBNode.IH(1)[OF sl, of "Frame L c k v r (cnt + 1) # fs"] True
      by (simp add: insertPath_simps(2)[where cmp=defaultCompare, OF d] ins_list_left)
  next
    case False
    then have d: "\<not> defaultCompare key k \<le> 0" by (auto simp: defaultCompare_def)
    have lt: "\<forall>x\<in>set (entries l @ [(k, v)]). fst x < key"
      using RBNode.prems False by (auto simp: sorted_append)
    have "ins_list key val (entries l @ (k, v) # entries r)
          = (entries l @ [(k, v)]) @ ins_list key val (entries r)"
      using ins_list_right[OF lt, of val "entries r"] by simp
    then show ?thesis
      using RBNode.IH(2)[OF sr, of "Frame R c k v l (cnt + 1) # fs"]
      by (simp add: insertPath_simps(3)[where cmp=defaultCompare, OF d])
  qed
qed

lemma set_ins_list: "set (ins_list k v xs) = insert (k, v) (set xs)"
  by (induction xs rule: ins_list.induct) auto

lemma sorted_ins_list: "sorted (map fst xs) \<Longrightarrow> sorted (map fst (ins_list k v xs))"
  by (induction xs rule: ins_list.induct) (auto simp: set_ins_list)

lemma root_rbt_insert:
  "root (rbt_insert t key val) =
   repaint BLACK (insertRebalance (insertPath (compare t) key (root t)) (RBNode RED key val Null Null 1))"
  by (simp add: rbt_insert_def insertPath_def)

lemma entries_rbt_insert:
  "compare t = defaultCompare \<Longrightarrow> sorted (map fst (entries (root t))) \<Longrightarrow>
   entries (root (rbt_insert t key val)) = ins_list key val (entries (root t))"
  using entries_insertPath[of "root t" key "[]" val]
  by (simp add: root_rbt_insert entries_insertRebalance entries_plug)

lemma colorOf_plug: "colorOf (plug fs n) = rootColor fs (colorOf n)"
  by (induction fs n rule: plug.induct) auto

lemma plug_append: "plug (xs @ ys) n = plug ys (plug xs n)"
  by (induction xs n rule: plug.induct) auto

lemma plug_paintCur:
  "colorOf (plug (rev lower) Null) = BLACK \<Longrightarrow> paintCur lower = lower"
proof (cases lower)
  case Nil then show ?thesis by simp
next
  case (Cons f fs)
  assume "colorOf (plug (rev lower) Null) = BLACK"
  then show ?thesis using Cons
    by (cases f) (simp add: colorOf_plug plug_append)
qed

lemma isRed_blackHeight: "isRed n \<Longrightarrow> noRedRed n \<Longrightarrow> balanced n \<Longrightarrow>
  \<exists>k v l r cnt. n = RBNode RED k v l r cnt \<and> colorOf l = BLACK \<and> colorOf r = BLACK
    \<and> blackHeight l = blackHeight n \<and> blackHeight r = blackHeight n \<and> balanced l \<and> balanced r
    \<and> noRedRed l \<and> noRedRed r"
  by (cases n rule: isRed.cases) auto

lemma colorOf_repaint_BLACK [simp]: "colorOf (repaint BLACK n) = BLACK"
  by (cases n) auto

lemma rootColor_weaken: "rootColor fs c0 = BLACK \<Longrightarrow> rootColor fs BLACK = BLACK"
  by (cases "(fs, c0)" rule: rootColor.cases) auto

lemma fixDoubleBlack_shape:
  "pathHeights upper (Suc (blackHeight (plug (rev lower) Null))) \<Longrightarrow>
   pathColors upper BLACK \<Longrightarrow> rootColor upper BLACK = BLACK \<Longrightarrow>
   balanced (plug (rev lower) Null) \<Longrightarrow> noRedRed (plug (rev lower) Null) \<Longrightarrow>
   colorOf (plug (rev lower) Null) = BLACK \<Longrightarrow>
   (case fixDoubleBlack upper lower c0 of
      Inl e \<Rightarrow> False
    | Inr path \<Rightarrow> balanced (plug path Null) \<and> noRedRed (plug path Null)
        \<and> colorOf (plug path Null) = BLACK)"
proof (induction upper lower c0 rule: fixDoubleBlack.induct)
  case (1 lower c0)
  then show ?case by (simp add: plug_paintCur)
next
  case (2 d pc pk pv pcnt upper lower c0)
  then show ?case by simp
next
  case (3 pc pk pv sc sk sv sl sr scnt pcnt upper lower c0)
  define X where "X = plug (rev lower) Null"
  have pl: "paintCur lower = lower" using "3.prems" by (simp add: plug_paintCur)
  have res: "plug (rev lower @ new) Null = plug new X" for new
    by (simp add: plug_append X_def)
  have X: "balanced X" "noRedRed X" "colorOf X = BLACK"
    "pathHeights (Frame L pc pk pv (RBNode sc sk sv sl sr scnt) pcnt # upper) (Suc (blackHeight X))"
    using "3.prems" unfolding X_def by blast+
  note U = "3.prems"(2,3)
  show ?case
  proof (cases "isRed sr")
    case True
    then show ?thesis using X U
      by (cases sc; cases pc)
         (auto simp: Let_def pl res balanced_plug noRedRed_plug colorOf_plug
               blackHeight_repaint_BLACK not_isRed_colorOf isRed_colorOf noRedRed_repaint_BLACK
               dest!: isRed_blackHeight)
  next
    case nsr: False
    show ?thesis
    proof (cases "isRed sl")
      case True
      then obtain zk zv zl zr zcnt where z: "sl = RBNode RED zk zv zl zr zcnt"
        using isRed_cases by blast
      have srb: "colorOf sr = BLACK" using nsr by (rule not_isRed_colorOf)
      show ?thesis using X U nsr z srb
        by (cases sc; cases pc)
           (auto simp: Let_def pl res balanced_plug noRedRed_plug colorOf_plug recount_def)
    next
      case nsl: False
      show ?thesis
      proof (cases sc)
        case BLACK
        show ?thesis
        proof (cases pc)
          case RED
          then show ?thesis using X U nsr nsl BLACK
            by (auto simp: Let_def res balanced_plug noRedRed_plug colorOf_plug
                not_isRed_colorOf intro: pathColors_weaken rootColor_weaken)
        next
          case pb: BLACK
          have "case fixDoubleBlack upper (Frame L pc pk pv (repaint RED (RBNode sc sk sv sl sr scnt)) pcnt # lower) c0 of
              Inl e \<Rightarrow> False
            | Inr path \<Rightarrow> balanced (plug path Null) \<and> noRedRed (plug path Null) \<and> colorOf (plug path Null) = BLACK"
            using X U nsr nsl BLACK pb
            by (intro "3.IH"(1)[OF refl refl nsr nsl])
               (auto simp: res not_isRed_colorOf)
          then show ?thesis using nsr nsl BLACK pb by (simp add: Let_def)
        qed
      next
        case RED
        have "case fixDoubleBlack (Frame L RED pk pv sl (1 + curCount lower c0 + countOf sl)
                 # Frame L pc sk sv sr (1 + (1 + curCount lower c0 + countOf sl) + countOf sr) # upper) lower c0 of
              Inl e \<Rightarrow> False
            | Inr path \<Rightarrow> balanced (plug path Null) \<and> noRedRed (plug path Null) \<and> colorOf (plug path Null) = BLACK"
          using "3.prems" nsr nsl RED
          by (intro "3.IH"(2)[OF refl refl nsr nsl _ refl])
             (auto simp: not_isRed_colorOf split: if_splits)
        then show ?thesis using nsr nsl RED by (simp add: Let_def)
      qed
    qed
  qed
next
  case (4 pc pk pv sc sk sv sl sr scnt pcnt upper lower c0)
  define X where "X = plug (rev lower) Null"
  have pl: "paintCur lower = lower" using "4.prems" by (simp add: plug_paintCur)
  have res: "plug (rev lower @ new) Null = plug new X" for new
    by (simp add: plug_append X_def)
  have X: "balanced X" "noRedRed X" "colorOf X = BLACK"
    "pathHeights (Frame R pc pk pv (RBNode sc sk sv sl sr scnt) pcnt # upper) (Suc (blackHeight X))"
    using "4.prems" unfolding X_def by blast+
  note U = "4.prems"(2,3)
  show ?case
  proof (cases "isRed sl")
    case True
    then show ?thesis using X U
      by (cases sc; cases pc)
         (auto simp: Let_def pl res balanced_plug noRedRed_plug colorOf_plug
               blackHeight_repaint_BLACK not_isRed_colorOf isRed_colorOf noRedRed_repaint_BLACK
               dest!: isRed_blackHeight)
  next
    case nsl: False
    show ?thesis
    proof (cases "isRed sr")
      case True
      then obtain zk zv zl zr zcnt where z: "sr = RBNode RED zk zv zl zr zcnt"
        using isRed_cases by blast
      have slb: "colorOf sl = BLACK" using nsl by (rule not_isRed_colorOf)
      show ?thesis using X U nsl z slb
        by (cases sc; cases pc)
           (auto simp: Let_def pl res balanced_plug noRedRed_plug colorOf_plug recount_def)
    next
      case nsr: False
      show ?thesis
      proof (cases sc)
        case BLACK
        show ?thesis
        proof (cases pc)
          case RED
          then show ?thesis using X U nsr nsl BLACK
            by (auto simp: Let_def res balanced_plug noRedRed_plug colorOf_plug
                not_isRed_colorOf intro: pathColors_weaken rootColor_weaken)
        next
          case pb: BLACK
          have "case fixDoubleBlack upper (Frame R pc pk pv (repaint RED (RBNode sc sk sv sl sr scnt)) pcnt # lower) c0 of
              Inl e \<Rightarrow> False
            | Inr path \<Rightarrow> balanced (plug path Null) \<and> noRedRed (plug path Null) \<and> colorOf (plug path Null) = BLACK"
            using X U nsr nsl BLACK pb
            by (intro "4.IH"(1)[OF refl refl nsl nsr])
               (auto simp: res not_isRed_colorOf)
          then show ?thesis using nsr nsl BLACK pb by (simp add: Let_def)
        qed
      next
        case RED
        have "case fixDoubleBlack (Frame R RED pk pv sr (1 + countOf sr + curCount lower c0)
                 # Frame R pc sk sv sl (1 + countOf sl + (1 + countOf sr + curCount lower c0)) # upper) lower c0 of
              Inl e \<Rightarrow> False
            | Inr path \<Rightarrow> balanced (plug path Null) \<and> noRedRed (plug path Null) \<and> colorOf (plug path Null) = BLACK"
          using "4.prems" nsr nsl RED
          by (intro "4.IH"(2)[OF refl refl nsl nsr _ refl])
             (auto simp: not_isRed_colorOf split: if_splits)
        then show ?thesis using nsr nsl RED by (simp add: Let_def)
      qed
    qed
  qed
qed

lemma countOf_plug: "countOf (plug fs n) = rootCount fs (countOf n)"
  by (induction fs n rule: plug.induct) auto

lemma plug_rev_paintCur: "plug (rev (paintCur lower)) Null = repaint BLACK (plug (rev lower) Null)"
proof (cases lower)
  case Nil then show ?thesis by simp
next
  case (Cons f fs) then show ?thesis
    by (cases "([f], plug (rev fs) Null)" rule: plug.cases) (auto simp: plug_append)
qed

lemma fixDoubleBlack_content:
  "countsOk (plug (rev lower) Null) \<Longrightarrow> pathCounts upper (countOf (plug (rev lower) Null)) \<Longrightarrow>
   curCount lower c0 = countOf (plug (rev lower) Null) \<Longrightarrow>
   (case fixDoubleBlack upper lower c0 of
      Inl e \<Rightarrow> True
    | Inr path \<Rightarrow>
        entries (plug path Null) = entries (plug upper (plug (rev lower) Null))
        \<and> countsOk (plug path Null)
        \<and> countOf (plug path Null) = countOf (plug upper (plug (rev lower) Null)))"
proof (induction upper lower c0 rule: fixDoubleBlack.induct)
  case (1 lower c0)
  then show ?case by (simp add: plug_rev_paintCur)
next
  case (2 d pc pk pv pcnt upper lower c0)
  then show ?case by simp
next
  case (3 pc pk pv sc sk sv sl sr scnt pcnt upper lower c0)
  define X where "X = plug (rev lower) Null"
  have res: "plug (rev lower @ new) Null = plug new X"
            "plug (rev (paintCur lower) @ new) Null = plug new (repaint BLACK X)" for new
    by (simp_all add: plug_append X_def plug_rev_paintCur)
  have X: "countsOk X" "curCount lower c0 = countOf X"
    "pathCounts (Frame L pc pk pv (RBNode sc sk sv sl sr scnt) pcnt # upper) (countOf X)"
    using "3.prems" unfolding X_def by blast+
  have goal: "(case r of Inl e \<Rightarrow> True | Inr path \<Rightarrow>
        entries (plug path Null) = entries (plug (Frame L pc pk pv (RBNode sc sk sv sl sr scnt) pcnt # upper) (plug (rev lower) Null))
        \<and> countsOk (plug path Null)
        \<and> countOf (plug path Null) = countOf (plug (Frame L pc pk pv (RBNode sc sk sv sl sr scnt) pcnt # upper) (plug (rev lower) Null)))
      = (case r of Inl e \<Rightarrow> True | Inr path \<Rightarrow>
        entries (plug path Null) = entries (plug (Frame L pc pk pv (RBNode sc sk sv sl sr scnt) pcnt # upper) X)
        \<and> countsOk (plug path Null)
        \<and> countOf (plug path Null) = rootCount upper pcnt)" for r
    by (cases r) (simp_all add: X_def countOf_plug)
  show ?case
  proof (cases "isRed sr")
    case True
    show ?thesis
      unfolding goal using X True
      apply (simp add: Let_def res)
      apply (clarsimp simp: entries_plug countsOk_plug countOf_plug ac_simps)
      done
  next
    case nsr: False
    show ?thesis
    proof (cases "isRed sl")
      case True
      then obtain zc zk zv zl zr zcnt where z: "sl = RBNode zc zk zv zl zr zcnt"
        by (cases sl) auto
      show ?thesis
        unfolding goal using X nsr True
        apply (simp add: Let_def res z)
        apply (clarsimp simp: entries_plug countsOk_plug countOf_plug recount_def ac_simps)
        done
    next
      case nsl: False
      show ?thesis
      proof (cases sc)
        case BLACK
        show ?thesis
        proof (cases pc)
          case RED
          show ?thesis
            unfolding goal using X nsr nsl BLACK RED
            apply (simp add: Let_def res)
            apply (clarsimp simp: entries_plug countsOk_plug countOf_plug ac_simps)
            done
        next
          case pb: BLACK
          let ?F = "Frame L pc pk pv (repaint RED (RBNode sc sk sv sl sr scnt)) pcnt"
          have eq: "plug (rev (?F # lower)) Null = plug [?F] X"
            by (simp add: res)
          have "case fixDoubleBlack upper (?F # lower) c0 of
              Inl e \<Rightarrow> True
            | Inr path \<Rightarrow> entries (plug path Null) = entries (plug upper (plug (rev (?F # lower)) Null))
               \<and> countsOk (plug path Null)
               \<and> countOf (plug path Null) = countOf (plug upper (plug (rev (?F # lower)) Null))"
            using X nsr nsl BLACK pb
            by (intro "3.IH"(1)[OF refl refl nsr nsl])
               (auto simp: res countsOk_plug countOf_plug ac_simps)
          then have ih: "case fixDoubleBlack upper (?F # lower) c0 of
              Inl e \<Rightarrow> True
            | Inr path \<Rightarrow> entries (plug path Null) = entries (plug upper (plug [?F] X))
               \<and> countsOk (plug path Null)
               \<and> countOf (plug path Null) = countOf (plug upper (plug [?F] X))"
            unfolding eq .
          show ?thesis
            unfolding goal using ih nsr nsl BLACK pb
            by (cases "fixDoubleBlack upper (?F # lower) c0")
               (auto simp: Let_def entries_plug countOf_plug ac_simps)
        qed
      next
        case RED
        let ?Fs = "Frame L RED pk pv sl (1 + curCount lower c0 + countOf sl)
                 # Frame L pc sk sv sr (1 + (1 + curCount lower c0 + countOf sl) + countOf sr) # upper"
        have "case fixDoubleBlack ?Fs lower c0 of
              Inl e \<Rightarrow> True
            | Inr path \<Rightarrow> entries (plug path Null) = entries (plug ?Fs (plug (rev lower) Null))
               \<and> countsOk (plug path Null)
               \<and> countOf (plug path Null) = countOf (plug ?Fs (plug (rev lower) Null))"
          using "3.prems" X nsr nsl RED
          by (intro "3.IH"(2)[OF refl refl nsr nsl _ refl])
             (auto simp: ac_simps X_def)
        then have ih: "case fixDoubleBlack ?Fs lower c0 of
              Inl e \<Rightarrow> True
            | Inr path \<Rightarrow> entries (plug path Null) = entries (plug ?Fs X)
               \<and> countsOk (plug path Null)
               \<and> countOf (plug path Null) = countOf (plug ?Fs X)"
          unfolding X_def .
        show ?thesis
          unfolding goal using ih nsr nsl RED X
          by (cases "fixDoubleBlack ?Fs lower c0")
             (auto simp: Let_def entries_plug countOf_plug ac_simps)
      qed
    qed
  qed
next
  case (4 pc pk pv sc sk sv sl sr scnt pcnt upper lower c0)
  define X where "X = plug (rev lower) Null"
  have res: "plug (rev lower @ new) Null = plug new X"
            "plug (rev (paintCur lower) @ new) Null = plug new (repaint BLACK X)" for new
    by (simp_all add: plug_append X_def plug_rev_paintCur)
  have X: "countsOk X" "curCount lower c0 = countOf X"
    "pathCounts (Frame R pc pk pv (RBNode sc sk sv sl sr scnt) pcnt # upper) (countOf X)"
    using "4.prems" unfolding X_def by blast+
  have goal: "(case r of Inl e \<Rightarrow> True | Inr path \<Rightarrow>
        entries (plug path Null) = entries (plug (Frame R pc pk pv (RBNode sc sk sv sl sr scnt) pcnt # upper) (plug (rev lower) Null))
        \<and> countsOk (plug path Null)
        \<and> countOf (plug path Null) = countOf (plug (Frame R pc pk pv (RBNode sc sk sv sl sr scnt) pcnt # upper) (plug (rev lower) Null)))
      = (case r of Inl e \<Rightarrow> True | Inr path \<Rightarrow>
        entries (plug path Null) = entries (plug (Frame R pc pk pv (RBNode sc sk sv sl sr scnt) pcnt # upper) X)
        \<and> countsOk (plug path Null)
        \<and> countOf (plug path Null) = rootCount upper pcnt)" for r
    by (cases r) (simp_all add: X_def countOf_plug)
  show ?case
  proof (cases "isRed sl")
    case True
    show ?thesis
      unfolding goal using X True
      apply (simp add: Let_def res)
      apply (clarsimp simp: entries_plug countsOk_plug countOf_plug ac_simps)
      done
  next
    case nsl: False
    show ?thesis
    proof (cases "isRed sr")
      case True
      then obtain zc zk zv zl zr zcnt where z: "sr = RBNode zc zk zv zl zr zcnt"
        by (cases sr) auto
      show ?thesis
        unfolding goal using X nsl True
        apply (simp add: Let_def res z)
        apply (clarsimp simp: entries_plug countsOk_plug countOf_plug recount_def ac_simps)
        done
    next
      case nsr: False
      show ?thesis
      proof (cases sc)
        case BLACK
        show ?thesis
        proof (cases pc)
          case RED
          show ?thesis
            unfolding goal using X nsr nsl BLACK RED
            apply (simp add: Let_def res)
            apply (clarsimp simp: entries_plug countsOk_plug countOf_plug ac_simps)
            done
        next
          case pb: BLACK
          let ?F = "Frame R pc pk pv (repaint RED (RBNode sc sk sv sl sr scnt)) pcnt"
          have eq: "plug (rev (?F # lower)) Null = plug [?F] X"
            by (simp add: res)
          have "case fixDoubleBlack upper (?F # lower) c0 of
              Inl e \<Rightarrow> True
            | Inr path \<Rightarrow> entries (plug path Null) = entries (plug upper (plug (rev (?F # lower)) Null))
               \<and> countsOk (plug path Null)
               \<and> countOf (plug path Null) = countOf (plug upper (plug (rev (?F # lower)) Null))"
            using X nsr nsl BLACK pb
            by (intro "4.IH"(1)[OF refl refl nsl nsr])
               (auto simp: res countsOk_plug countOf_plug ac_simps)
          then have ih: "case fixDoubleBlack upper (?F # lower) c0 of
              Inl e \<Rightarrow> True
            | Inr path \<Rightarrow> entries (plug path Null) = entries (plug upper (plug [?F] X))
               \<and> countsOk (plug path Null)
               \<and> countOf (plug path Null) = countOf (plug upper (plug [?F] X))"
            unfolding eq .
          show ?thesis
            unfolding goal using ih nsr nsl BLACK pb
            by (cases "fixDoubleBlack upper (?F # lower) c0")
               (auto simp: Let_def entries_plug countOf_plug ac_simps)
        qed
      next
        case RED
        let ?Fs = "Frame R RED pk pv sr (1 + countOf sr + curCount lower c0)
                 # Frame R pc sk sv sl (1 + countOf sl + (1 + countOf sr + curCount lower c0)) # upper"
        have "case fixDoubleBlack ?Fs lower c0 of
              Inl e \<Rightarrow> True
            | Inr path \<Rightarrow> entries (plug path Null) = entries (plug ?Fs (plug (rev lower) Null))
               \<and> countsOk (plug path Null)
               \<and> countOf (plug path Null) = countOf (plug ?Fs (plug (rev lower) Null))"
          using "4.prems" X nsr nsl RED
          by (intro "4.IH"(2)[OF refl refl nsl nsr _ refl])
             (auto simp: ac_simps X_def)
        then have ih: "case fixDoubleBlack ?Fs lower c0 of
              Inl e \<Rightarrow> True
            | Inr path \<Rightarrow> entries (plug path Null) = entries (plug ?Fs X)
               \<and> countsOk (plug path Null)
               \<and> countOf (plug path Null) = countOf (plug ?Fs X)"
          unfolding X_def .
        show ?thesis
          unfolding goal using ih nsr nsl RED X
          by (cases "fixDoubleBlack ?Fs lower c0")
             (auto simp: Let_def entries_plug countOf_plug ac_simps)
      qed
    qed
  qed
qed

lemma pathHeights_decr [simp]: "pathHeights (map decrCount fs) h = pathHeights fs h"
  by (induction fs h rule: pathHeights.induct) auto

lemma pathColors_decr [simp]: "pathColors (map decrCount fs) c = pathColors fs c"
  by (induction fs c rule: pathColors.induct) auto

lemma rootColor_decr [simp]: "rootColor (map decrCount fs) c = rootColor fs c"
  by (induction fs c rule: rootColor.induct) auto

lemma entriesL_decr [simp]: "entriesL (map decrCount fs) = entriesL fs"
  by (induction fs rule: entriesL.induct) auto

lemma entriesR_decr [simp]: "entriesR (map decrCount fs) = entriesR fs"
  by (induction fs rule: entriesR.induct) auto

lemma pathCounts_decr: "pathCounts fs (m + 1) \<Longrightarrow> pathCounts (map decrCount fs) m"
proof (induction fs arbitrary: m)
  case Nil then show ?case by simp
next
  case (Cons f fs)
  obtain d c k v other cnt where f: "f = Frame d c k v other cnt" by (cases f)
  from Cons.prems f have "pathCounts fs ((cnt - 1) + 1)" by (auto simp: ac_simps)
  then have "pathCounts (map decrCount fs) (cnt - 1)" by (rule Cons.IH)
  then show ?case using Cons.prems f by auto
qed

lemma rootCount_decr: "fs \<noteq> [] \<Longrightarrow> rootCount (map decrCount fs) m = rootCount fs m' - 1"
proof (induction fs arbitrary: m m')
  case Nil then show ?case by simp
next
  case (Cons f fs)
  obtain d c k v other cnt where f: "f = Frame d c k v other cnt" by (cases f)
  show ?case
  proof (cases fs)
    case Nil then show ?thesis using f by simp
  next
    case (Cons g gs)
    then show ?thesis using f Cons.IH[of "cnt - 1" cnt] by simp
  qed
qed

lemma black_height_zero: "colorOf n = BLACK \<Longrightarrow> blackHeight n = 0 \<Longrightarrow> n = Null"
  by (cases n) auto

lemma black_height_zero_iff: "colorOf n = BLACK \<Longrightarrow> (blackHeight n = 0) = (n = Null)"
  by (cases n) auto

lemma red_height_zero:
  "colorOf n = RED \<Longrightarrow> blackHeight n = 0 \<Longrightarrow> noRedRed n \<Longrightarrow> balanced n \<Longrightarrow> countsOk n \<Longrightarrow>
   \<exists>k v. n = RBNode RED k v Null Null 1"
  by (cases n) (auto simp: black_height_zero_iff)

lemma rootColor_nonempty: "rootColor fs RED = BLACK \<Longrightarrow> fs \<noteq> []"
  by (cases fs) auto

lemma removeLast_ok:
  assumes inv: "rbInv (plug fs (RBNode nc nk nv nl nr ncnt))"
    and one: "nl = Null \<or> nr = Null"
  shows "case removeLast cmp fs (RBNode nc nk nv nl nr ncnt) of
           Inl e \<Rightarrow> False
         | Inr t \<Rightarrow> rbInv (root t) \<and> compare t = cmp
             \<and> entries (root t) = entriesL fs @ entries nl @ entries nr @ entriesR fs
             \<and> countOf (root t) = countOf (plug fs (RBNode nc nk nv nl nr ncnt)) - 1"
proof -
  let ?n = "RBNode nc nk nv nl nr ncnt"
  from inv have root: "rootColor fs nc = BLACK"
    and col: "noRedRed ?n" "pathColors fs nc"
    and hgt: "balanced ?n" "pathHeights fs (blackHeight ?n)"
    and cnt: "countsOk ?n" "pathCounts fs ncnt"
    by (auto simp: rbInv_def colorOf_plug noRedRed_plug balanced_plug countsOk_plug)
  show ?thesis
  proof (cases nc)
    case RED
    then have ne: "fs \<noteq> []" using root by (auto dest: rootColor_nonempty)
    have kids: "nl = Null" "nr = Null"
      using one col(1) hgt(1) RED by (auto dest: black_height_zero)
    then have n1: "ncnt = 1" using cnt(1) by simp
    have "pathCounts (map decrCount fs) 0" using cnt(2) n1 by (intro pathCounts_decr) simp
    moreover have "pathColors fs BLACK" using col(2) by (rule pathColors_weaken)
    moreover have "rootColor fs BLACK = BLACK" using root by (rule rootColor_weaken)
    moreover have "pathHeights fs 0" using hgt(2) RED kids by simp
    ultimately show ?thesis using RED ne kids
      by (simp add: rbInv_def colorOf_plug noRedRed_plug balanced_plug countsOk_plug
          entries_plug countOf_plug rootCount_decr[OF ne, of 0 ncnt])
  next
    case BLACK
    show ?thesis
    proof (cases "nl \<noteq> Null \<or> nr \<noteq> Null")
      case True
      let ?ch = "if nl \<noteq> Null then nl else nr"
      have chh: "blackHeight ?ch = 0" "?ch \<noteq> Null" "noRedRed ?ch" "balanced ?ch" "countsOk ?ch"
        using True one hgt(1) col(1) cnt(1) by auto
      then have "colorOf ?ch = RED" by (cases "colorOf ?ch") (auto dest: black_height_zero)
      with chh obtain k v where ch: "?ch = RBNode RED k v Null Null 1"
        using red_height_zero by blast
      have n2: "ncnt = 2" and en: "entries nl @ entries nr = [(k, v)]"
        using True one cnt(1) ch by (auto split: if_splits)
      have pc: "pathCounts (map decrCount fs) 1" using cnt(2) n2 by (intro pathCounts_decr) simp
      have rc: "rootCount (map decrCount fs) 1 = rootCount fs 2 - 1"
        by (cases "fs = []") (simp_all add: rootCount_decr)
      have ph: "pathHeights fs (Suc 0)" using hgt BLACK chh True
        by (auto split: if_splits)
      show ?thesis using True BLACK root col(2) ph pc rc n2 en
        by (simp add: ch rbInv_def colorOf_plug noRedRed_plug balanced_plug countsOk_plug
            entries_plug countOf_plug)
    next
      case False
      then have kids: "nl = Null" "nr = Null" by auto
      then have n1: "ncnt = 1" using cnt(1) by simp
      show ?thesis
      proof (cases "fs = []")
        case True
        then show ?thesis using BLACK kids n1 by (simp add: rbInv_def)
      next
        case ne: False
        have pc: "pathCounts (map decrCount fs) 0" using cnt(2) n1 by (intro pathCounts_decr) simp
        have ph: "pathHeights fs (Suc 0)" using hgt BLACK kids by simp
        have shape: "case fixDoubleBlack (map decrCount fs) [] 0 of
            Inl e \<Rightarrow> False
          | Inr path \<Rightarrow> balanced (plug path Null) \<and> noRedRed (plug path Null)
              \<and> colorOf (plug path Null) = BLACK"
          using ph col(2) root BLACK by (intro fixDoubleBlack_shape) simp_all
        have content: "case fixDoubleBlack (map decrCount fs) [] 0 of
            Inl e \<Rightarrow> True
          | Inr path \<Rightarrow> entries (plug path Null) = entries (plug (map decrCount fs) (plug (rev []) Null))
              \<and> countsOk (plug path Null)
              \<and> countOf (plug path Null) = countOf (plug (map decrCount fs) (plug (rev []) Null))"
          using pc by (intro fixDoubleBlack_content) simp_all
        show ?thesis using shape content BLACK kids n1 ne
          by (cases "fixDoubleBlack (map decrCount fs) [] 0")
             (simp_all add: rbInv_def entries_plug countOf_plug rootCount_decr[OF ne, of 0 1])
      qed
    qed
  qed
qed

lemma findLoop_valid:
  "plug (rev (map removeCopy anc)) n = rt \<Longrightarrow> \<forall>e\<in>set anc. fst e \<noteq> Null \<Longrightarrow>
   validStack rt (findLoop cmp key anc n)"
  by (induction cmp key anc n rule: findLoop.induct)
     (auto simp: validStack_def Let_def)

lemma atLoop_valid:
  "atLoop anc n idx = Inr st \<Longrightarrow> plug (rev (map removeCopy anc)) n = rt \<Longrightarrow>
   \<forall>e\<in>set anc. fst e \<noteq> Null \<Longrightarrow> validStack rt st"
  by (induction anc n idx rule: atLoop.induct)
     (auto simp: validStack_def Let_def split: if_splits)

lemma walkRight_path:
  "walkRight n acc = (ws, q) \<Longrightarrow> n \<noteq> Null \<Longrightarrow>
   \<exists>qc qk qv ql qcnt ws'. q = RBNode qc qk qv ql Null qcnt \<and> ws = ws' @ acc
      \<and> plug ws' q = n \<and> entriesR ws' = []"
proof (induction n acc arbitrary: ws q rule: walkRight.induct)
  case (1 c k v l r cnt acc)
  show ?case
  proof (cases "r = Null")
    case True
    then show ?thesis using "1.prems" by auto
  next
    case False
    with "1.prems" have "walkRight r (Frame R c k v l cnt # acc) = (ws, q)" by simp
    from "1.IH"[OF False this False]
    obtain qc qk qv ql qcnt ws' where
      w: "q = RBNode qc qk qv ql Null qcnt" "ws = ws' @ Frame R c k v l cnt # acc"
         "plug ws' q = r" "entriesR ws' = []" by blast
    have "entriesR (ws' @ [Frame R c k v l cnt]) = []" using w(4)
      by (induction ws' rule: entriesR.induct) auto
    then show ?thesis using w by (intro exI[of _ "ws' @ [Frame R c k v l cnt]"] exI) (auto simp: plug_append)
  qed
next
  case (2 acc)
  then show ?case by simp
qed

lemma entriesL_append: "entriesL (xs @ ys) = entriesL ys @ entriesL xs"
  by (induction xs rule: entriesL.induct) auto

lemma entriesR_append: "entriesR (xs @ ys) = entriesR xs @ entriesR ys"
  by (induction xs rule: entriesR.induct) auto

lemma blackHeight_plug_cong:
  "blackHeight a = blackHeight b \<Longrightarrow> blackHeight (plug fs a) = blackHeight (plug fs b)"
proof (induction fs arbitrary: a b)
  case Nil then show ?case by simp
next
  case (Cons f fs)
  show ?case using Cons.prems
    by (cases "(f # fs, a)" rule: plug.cases) (auto intro!: Cons.IH)
qed

lemma iter_remove_ok:
  assumes inv: "rbInv (root (tree it))" and val: "validStack (root (tree it)) (stack it)"
  shows "case iter_remove it of
           Inl e \<Rightarrow> False
         | Inr t' \<Rightarrow> rbInv (root t') \<and> compare t' = compare (tree it)
             \<and> (case stack it of
                  EmptyStack \<Rightarrow> t' = tree it
                | Stack anc Null \<Rightarrow> False
                | Stack anc (RBNode c k v l r cnt) \<Rightarrow>
                    (\<exists>xs ys. entries (root (tree it)) = xs @ (k, v) # ys \<and> entries (root t') = xs @ ys)
                    \<and> countOf (root t') = countOf (root (tree it)) - 1)"
proof (cases "stack it")
  case EmptyStack
  then show ?thesis using inv by (simp add: iter_remove_def)
next
  case (Stack anc cur)
  with val obtain c k v l r cnt where cur: "cur = RBNode c k v l r cnt"
    by (cases cur) (auto simp: validStack_def)
  define fs where "fs = rev (map removeCopy anc)"
  have rt: "plug fs (RBNode c k v l r cnt) = root (tree it)"
    using val Stack cur by (simp add: validStack_def fs_def)
  have ent: "entries (root (tree it)) = (entriesL fs @ entries l) @ (k, v) # (entries r @ entriesR fs)"
    unfolding rt[symmetric] by (simp add: entries_plug)
  show ?thesis
  proof (cases "l \<noteq> Null \<and> r \<noteq> Null")
    case False
    then have one: "l = Null \<or> r = Null" by auto
    have "case removeLast (compare (tree it)) fs (RBNode c k v l r cnt) of
           Inl e \<Rightarrow> False
         | Inr t \<Rightarrow> rbInv (root t) \<and> compare t = compare (tree it)
             \<and> entries (root t) = entriesL fs @ entries l @ entries r @ entriesR fs
             \<and> countOf (root t) = countOf (plug fs (RBNode c k v l r cnt)) - 1"
      using inv one unfolding rt[symmetric] by (rule removeLast_ok)
    then obtain t' where t': "removeLast (compare (tree it)) fs (RBNode c k v l r cnt) = Inr t'"
        "rbInv (root t')" "compare t' = compare (tree it)"
        "entries (root t') = (entriesL fs @ entries l) @ (entries r @ entriesR fs)"
        "countOf (root t') = countOf (root (tree it)) - 1"
      by (cases "removeLast (compare (tree it)) fs (RBNode c k v l r cnt)") (auto simp: rt)
    have it: "iter_remove it = Inr t'"
      using one Stack cur t'(1)
      by (auto simp: iter_remove_def fs_def[symmetric] simp del: removeLast.simps)
    have "\<exists>xs ys. entries (root (tree it)) = xs @ (k, v) # ys \<and> entries (root t') = xs @ ys"
      unfolding ent t'(4) by blast
    then show ?thesis using it t'(2,3,5) Stack cur by simp
  next
    case True
    obtain ws q where wr: "walkRight l [] = (ws, q)" by (cases "walkRight l []")
    with True obtain qc qk qv ql qcnt where
      q: "q = RBNode qc qk qv ql Null qcnt" and pl: "plug ws q = l" and er: "entriesR ws = []"
      using walkRight_path[OF wr] by auto
    let ?q' = "RBNode qc k v ql Null qcnt"
    let ?P = "ws @ Frame L c qk qv r cnt # fs"
    define l' where "l' = plug ws ?q'"
    have bh: "blackHeight l' = blackHeight l"
      unfolding pl[symmetric] q l'_def by (rule blackHeight_plug_cong) simp
    have attrs: "colorOf l' = colorOf l" "noRedRed l' = noRedRed l" "balanced l' = balanced l"
        "countsOk l' = countsOk l" "countOf l' = countOf l"
      unfolding pl[symmetric] q l'_def
      by (simp_all add: colorOf_plug noRedRed_plug balanced_plug countsOk_plug countOf_plug)
    have P_eq: "plug ?P ?q' = plug fs (RBNode c qk qv l' r cnt)"
      by (simp add: plug_append l'_def)
    have inv': "rbInv (plug ?P ?q')"
      using inv unfolding rt[symmetric] P_eq
      by (auto simp: rbInv_def colorOf_plug noRedRed_plug balanced_plug countsOk_plug attrs bh)
    have el: "entries l = entriesL ws @ entries ql @ [(qk, qv)]"
      unfolding pl[symmetric] q by (simp add: entries_plug er)
    have cp: "countOf (plug ?P ?q') = countOf (root (tree it))"
      unfolding rt[symmetric] by (simp add: countOf_plug plug_append)
    have "case removeLast (compare (tree it)) ?P ?q' of
           Inl e \<Rightarrow> False
         | Inr t \<Rightarrow> rbInv (root t) \<and> compare t = compare (tree it)
             \<and> entries (root t) = entriesL ?P @ entries ql @ entries Null @ entriesR ?P
             \<and> countOf (root t) = countOf (plug ?P ?q') - 1"
      using inv' by (rule removeLast_ok) simp
    then obtain t' where t': "removeLast (compare (tree it)) ?P ?q' = Inr t'"
        "rbInv (root t')" "compare t' = compare (tree it)"
        "entries (root t') = (entriesL fs @ entries l) @ (entries r @ entriesR fs)"
        "countOf (root t') = countOf (root (tree it)) - 1"
      by (cases "removeLast (compare (tree it)) ?P ?q'")
         (auto simp: cp el er entriesL_append entriesR_append)
    have it: "iter_remove it = Inr t'"
      using True Stack cur t'(1) wr q
      by (simp add: iter_remove_def fs_def[symmetric] del: removeLast.simps)
    have "\<exists>xs ys. entries (root (tree it)) = xs @ (k, v) # ys \<and> entries (root t') = xs @ ys"
      unfolding ent t'(4) by blast
    then show ?thesis using it t'(2,3,5) Stack cur by simp
  qed
qed

lemma rbInv_rbt_insert:
  assumes "rbInv (root t)"
  shows "rbInv (root (rbt_insert t key val))"
    and "countOf (root (rbt_insert t key val)) = countOf (root t) + 1"
proof -
  let ?leaf = "RBNode RED key val Null Null 1"
  let ?fs = "insertPath (compare t) key (root t)"
  from assms have r: "colorOf (root t) = BLACK" "noRedRed (root t)" "balanced (root t)"
      "countsOk (root t)" by (simp_all add: rbInv_def)
  have ph: "pathHeights ?fs (blackHeight ?leaf)"
    using pathHeights_insertPath[of "root t" "[]"] r by simp
  have pc: "pathColors ?fs BLACK"
    using pathColors_insertPath[of "root t" "[]"] r by simp
  have pn: "pathCounts ?fs (countOf ?leaf)"
    using pathCounts_insertPath[of "root t" "[]"] r by simp
  have shape: "balanced (insertRebalance ?fs ?leaf)"
      "noRedRed (repaint BLACK (insertRebalance ?fs ?leaf))" "insertRebalance ?fs ?leaf \<noteq> Null"
    using shape_insertRebalance[OF _ _ _ _ ph pc] by simp_all
  have cnt: "countsOk (insertRebalance ?fs ?leaf)"
      "countOf (insertRebalance ?fs ?leaf) = countOf (plug ?fs ?leaf)"
    using counts_insertRebalance[OF _ pn] by simp_all
  show "rbInv (root (rbt_insert t key val))"
    using shape cnt by (simp add: rbInv_def root_rbt_insert)
  show "countOf (root (rbt_insert t key val)) = countOf (root t) + 1"
    using cnt by (simp add: root_rbt_insert countOf_plug_insertPath)
qed

lemma compare_rbt_insert [simp]: "compare (rbt_insert t key val) = compare t"
  by (simp add: rbt_insert_def Let_def)

lemma validStack_rbt_find: "validStack (root t) (stack (rbt_find t key))"
  by (simp add: rbt_find_def findLoop_valid)

lemma tree_rbt_find [simp]: "tree (rbt_find t key) = t"
  by (simp add: rbt_find_def)

lemma rbt_at_valid: "rbt_at t idx = Inr it \<Longrightarrow> tree it = t \<and> validStack (root t) (stack it)"
  by (auto simp: rbt_at_def validStack_def split: if_splits sum.splits dest!: atLoop_valid[where rt="root t"])

lemma iter_remove_inv:
  "rbInv (root (tree it)) \<Longrightarrow> validStack (root (tree it)) (stack it) \<Longrightarrow> iter_remove it = Inr t'
   \<Longrightarrow> rbInv (root t') \<and> compare t' = compare (tree it)"
  using iter_remove_ok[of it] by simp

lemma reachable_rbInv: "reachable t \<Longrightarrow> rbInv (root t)"
proof (induction rule: reachable.induct)
  case (empty cmp)
  show ?case by (simp add: createRBTree_def rbInv_def)
next
  case (insert t key val)
  then show ?case by (simp add: rbInv_rbt_insert)
next
  case (remove t key t')
  then show ?case
    using iter_remove_inv[of "rbt_find t key" t'] validStack_rbt_find[of t key]
    by (simp add: rbt_remove_def)
next
  case (remove_at t idx it t')
  then show ?case
    using iter_remove_inv[of it t'] rbt_at_valid[of t idx it] by simp
qed

lemma sorted_remove_mid: "sorted (map fst (xs @ x # ys)) \<Longrightarrow> sorted (map fst (xs @ ys))"
  by (auto simp: sorted_append)

lemma iter_remove_sorted:
  assumes "rbInv (root (tree it))" "validStack (root (tree it)) (stack it)" "iter_remove it = Inr t'"
    "sorted (map fst (entries (root (tree it))))"
  shows "sorted (map fst (entries (root t')))"
proof (cases "stack it")
  case EmptyStack
  then show ?thesis using assms iter_remove_ok[of it] by simp
next
  case (Stack anc cur)
  then obtain c k v l r cnt where "cur = RBNode c k v l r cnt"
    using assms(2) by (cases cur) (auto simp: validStack_def)
  with Stack iter_remove_ok[OF assms(1,2)] assms(3)
  obtain xs ys where "entries (root (tree it)) = xs @ (k, v) # ys" "entries (root t') = xs @ ys"
    by auto
  then show ?thesis using assms(4) sorted_remove_mid[of xs "(k, v)" ys] by simp
qed

lemma reachable_sorted:
  "reachable t \<Longrightarrow> compare t = defaultCompare \<Longrightarrow> sorted (map fst (entries (root t)))"
proof (induction rule: reachable.induct)
  case (empty cmp)
  show ?case by (simp add: createRBTree_def)
next
  case (insert t key val)
  then show ?case by (simp add: entries_rbt_insert sorted_ins_list)
next
  case (remove t key t')
  have inv: "rbInv (root t)" using remove.hyps(1) by (rule reachable_rbInv)
  have "compare t' = compare t"
    using iter_remove_inv[of "rbt_find t key" t'] inv validStack_rbt_find[of t key] remove.hyps(2)
    by (simp add: rbt_remove_def)
  then show ?case
    using iter_remove_sorted[of "rbt_find t key" t'] inv validStack_rbt_find[of t key] remove
    by (simp add: rbt_remove_def)
next
  case (remove_at t idx it t')
  have inv: "rbInv (root t)" using remove_at.hyps(1) by (rule reachable_rbInv)
  have v: "tree it = t" "validStack (root t) (stack it)"
    using rbt_at_valid[OF remove_at.hyps(2)] by simp_all
  have "compare t' = compare t"
    using iter_remove_inv[of it t'] inv v remove_at.hyps(3) by simp
  then show ?case
    using iter_remove_sorted[of it t'] inv v remove_at by simp
qed

lemma indexLoop_ok:
  "\<forall>e\<in>set es. fst e \<noteq> Null \<Longrightarrow> indexLoop idx es = Inr (idx + sum_list (map rankStep es))"
proof (induction es arbitrary: idx)
  case Nil then show ?case by simp
next
  case (Cons e es)
  obtain n d where e: "e = (n, d)" by (cases e)
  with Cons.prems obtain c k v l r cnt where n: "n = RBNode c k v l r cnt" by (cases n) auto
  show ?case using Cons.IH[of "idx + rankStep e"] Cons.prems e n
    by (cases d) (simp_all add: add.assoc)
qed

lemma countOf_length: "countsOk n \<Longrightarrow> countOf n = int (length (entries n))"
  by (induction n) auto

lemma atLoop_ok:
  "countsOk n \<Longrightarrow> 0 \<le> idx \<Longrightarrow> idx < countOf n \<Longrightarrow>
   \<exists>anc' c k v l r cnt. atLoop anc n idx = Inr (Stack (anc @ anc') (RBNode c k v l r cnt))
      \<and> (\<forall>e\<in>set anc'. fst e \<noteq> Null) \<and> sum_list (map rankStep anc') + countOf l = idx
      \<and> entries n ! nat idx = (k, v)"
proof (induction n arbitrary: anc idx)
  case Null then show ?case by simp
next
  case (RBNode c k v l r cnt)
  let ?n = "RBNode c k v l r cnt"
  have cl: "countOf l = int (length (entries l))" and cr: "countOf r = int (length (entries r))"
    and cn: "cnt = 1 + countOf l + countOf r" and ok: "countsOk l" "countsOk r"
    using RBNode.prems(1) by (simp_all add: countOf_length)
  show ?case
  proof (cases "idx < countOf l")
    case True
    then have lne: "l \<noteq> Null" using RBNode.prems(2) by (cases l) auto
    from RBNode.IH(1)[OF ok(1) RBNode.prems(2) True, of "anc @ [(?n, L)]"]
    obtain anc' c' k' v' l' r' cnt' where
      a: "atLoop (anc @ [(?n, L)]) l idx = Inr (Stack ((anc @ [(?n, L)]) @ anc') (RBNode c' k' v' l' r' cnt'))"
         "\<forall>e\<in>set anc'. fst e \<noteq> Null" "sum_list (map rankStep anc') + countOf l' = idx"
         "entries l ! nat idx = (k', v')" by blast
    have "nat idx < length (entries l)" using True RBNode.prems(2) cl by linarith
    then have "entries ?n ! nat idx = (k', v')"
      using a(4) by (simp add: nth_append)
    then show ?thesis using a True lne
      by (intro exI[of _ "(?n, L) # anc'"] exI[of _ c'] exI[of _ k'] exI[of _ v'] exI[of _ l']
          exI[of _ r'] exI[of _ cnt']) simp
  next
    case False
    then have sel: "\<not> (l \<noteq> Null \<and> idx < countOf l)" by simp
    have idx1: "(if l \<noteq> Null then idx - countOf l else idx) = idx - countOf l"
      by (cases l) auto
    show ?thesis
    proof (cases "idx - countOf l = 0")
      case True
      then have "nat idx = length (entries l)" using cl by simp
      then have "entries ?n ! nat idx = (k, v)" by (simp add: nth_append)
      then show ?thesis using sel idx1 True
        by (intro exI[of _ "[]"] exI[of _ c] exI[of _ k] exI[of _ v] exI[of _ l]
            exI[of _ r] exI[of _ cnt]) (simp add: Let_def)
    next
      case nz: False
      let ?i2 = "idx - countOf l - 1"
      have i2: "0 \<le> ?i2" "?i2 < countOf r" using nz False RBNode.prems(3) cn by simp_all
      then have rne: "r \<noteq> Null" by (cases r) auto
      from RBNode.IH(2)[OF ok(2) i2, of "anc @ [(?n, R)]"]
      obtain anc' c' k' v' l' r' cnt' where
        a: "atLoop (anc @ [(?n, R)]) r ?i2 = Inr (Stack ((anc @ [(?n, R)]) @ anc') (RBNode c' k' v' l' r' cnt'))"
           "\<forall>e\<in>set anc'. fst e \<noteq> Null" "sum_list (map rankStep anc') + countOf l' = ?i2"
           "entries r ! nat ?i2 = (k', v')" by blast
      have "nat idx = length (entries l) + Suc (nat ?i2)" using i2 cl False nz by simp
      then have "entries ?n ! nat idx = (k', v')"
        using a(4) by (simp add: nth_append)
      then show ?thesis using a sel idx1 nz rne i2
        by (intro exI[of _ "(?n, R) # anc'"] exI[of _ c'] exI[of _ k'] exI[of _ v'] exI[of _ l']
            exI[of _ r'] exI[of _ cnt']) (simp add: Let_def)
    qed
  qed
qed

lemma atLoop_invalid:
  "countsOk n \<Longrightarrow> n \<noteq> Null \<Longrightarrow> countOf n \<le> idx \<Longrightarrow> atLoop anc n idx = Inr EmptyStack"
proof (cases n)
  case Null
  assume "n \<noteq> Null" with Null show ?thesis by simp
next
  case (RBNode c k v l r cnt)
  assume a: "countsOk n" "countOf n \<le> idx"
  have "0 \<le> countOf l" "0 \<le> countOf r" "cnt = 1 + countOf l + countOf r"
    using a(1) RBNode by (simp_all add: countOf_length)
  then show ?thesis using a(2) RBNode by (auto simp: Let_def)
qed

lemma doVisitFull_push:
  "doVisitFull (\<lambda>k v result. (None, result @ [f k v])) n s
   = (None, s @ map (\<lambda>e. f (fst e) (snd e)) (entries n))"
  by (induction n arbitrary: s) auto

lemma rbt_keys_entries: "rbt_keys t = map fst (entries (root t))"
  by (simp add: rbt_keys_def rbt_forEach_def doVisitFull_push del: doVisitFull.simps)

lemma rbt_values_entries: "rbt_values t = map snd (entries (root t))"
  by (simp add: rbt_values_def rbt_forEach_def doVisitFull_push del: doVisitFull.simps)

lemma defaultCompare_eq [simp]: "(defaultCompare a b = 0) = (a = b)"
  by (auto simp: defaultCompare_def)

lemma defaultCompare_le [simp]: "(defaultCompare a b \<le> 0) = (a \<le> b)"
  by (auto simp: defaultCompare_def)

lemma getLoop_mem: "getLoop defaultCompare key n = Some v \<Longrightarrow> (key, v) \<in> set (entries n)"
  by (induction n) (auto simp: Let_def split: if_splits)

lemma getLoop_found:
  "sorted (map fst (entries n)) \<Longrightarrow> key \<in> fst ` set (entries n) \<Longrightarrow>
   \<exists>v. getLoop defaultCompare key n = Some v"
proof (induction n)
  case Null then show ?case by simp
next
  case (RBNode c k v l r cnt)
  have sl: "sorted (map fst (entries l))" and sr: "sorted (map fst (entries r))"
    and lo: "\<forall>x\<in>set (entries l). fst x \<le> k" and hi: "\<forall>x\<in>set (entries r). k \<le> fst x"
    using RBNode.prems(1) by (auto simp: sorted_append)
  consider "key = k" | "key < k" | "k < key" by (cases key k rule: linorder_cases) auto
  then show ?case
  proof cases
    case 1 then show ?thesis by simp
  next
    case 2
    then have "key \<in> fst ` set (entries l)" using RBNode.prems(2) hi by force
    with RBNode.IH(1)[OF sl] 2 show ?thesis by (auto simp: Let_def)
  next
    case 3
    then have "key \<in> fst ` set (entries r)" using RBNode.prems(2) lo by force
    with RBNode.IH(2)[OF sr] 3 show ?thesis by (auto simp: Let_def)
  qed
qed

lemma entries_split_insertPath:
  "entriesL (insertPath cmp key n @ fs) @ entriesR (insertPath cmp key n @ fs)
   = entriesL fs @ entries n @ entriesR fs"
proof (induction n arbitrary: fs)
  case Null then show ?case by (simp add: insertPath_simps)
next
  case (RBNode c k v l r cnt)
  show ?case
  proof (cases "cmp key k \<le> 0")
    case True
    then show ?thesis using RBNode.IH(1)[of "Frame L c k v r (cnt + 1) # fs"]
      by (simp add: insertPath_simps)
  next
    case False
    then show ?thesis using RBNode.IH(2)[of "Frame R c k v l (cnt + 1) # fs"]
      by (simp add: insertPath_simps)
  qed
qed

lemma entries_rbt_insert_split:
  "\<exists>xs ys. entries (root t) = xs @ ys \<and> entries (root (rbt_insert t key val)) = xs @ (key, val) # ys"
  using entries_split_insertPath[of "compare t" key "root t" "[]"]
  by (intro exI[of _ "entriesL (insertPath (compare t) key (root t))"]
            exI[of _ "entriesR (insertPath (compare t) key (root t))"])
     (simp add: root_rbt_insert entries_insertRebalance entries_plug)

lemma validComparator_total: "validComparator cmp \<Longrightarrow> \<not> cmp a b \<le> 0 \<Longrightarrow> cmp b a \<le> 0"
  by (auto simp: validComparator_def)

lemma validComparator_trans:
  "validComparator cmp \<Longrightarrow> cmp a b \<le> 0 \<Longrightarrow> cmp b c \<le> 0 \<Longrightarrow> cmp a c \<le> 0"
  unfolding validComparator_def by blast

lemma insertPath_bounds:
  assumes vc: "validComparator cmp"
  shows "ascending cmp (map fst (entries n)) \<Longrightarrow>
   \<exists>xs ys. entries n = xs @ ys
     \<and> entriesL (insertPath cmp key n @ fs) = entriesL fs @ xs
     \<and> entriesR (insertPath cmp key n @ fs) = ys @ entriesR fs
     \<and> (\<forall>x\<in>set xs. cmp (fst x) key \<le> 0) \<and> (\<forall>y\<in>set ys. cmp key (fst y) \<le> 0)"
proof (induction n arbitrary: fs)
  case Null
  then show ?case by (simp add: insertPath_simps)
next
  case (RBNode c k v l r cnt)
  have sl: "ascending cmp (map fst (entries l))" and sr: "ascending cmp (map fst (entries r))"
    and lo: "\<forall>x\<in>set (entries l). cmp (fst x) k \<le> 0"
    and hi: "\<forall>y\<in>set (entries r). cmp k (fst y) \<le> 0"
    using RBNode.prems by (auto simp: ascending_def sorted_wrt_append)
  show ?case
  proof (cases "cmp key k \<le> 0")
    case True
    from RBNode.IH(1)[OF sl, of "Frame L c k v r (cnt + 1) # fs"] obtain xs ys where
      s: "entries l = xs @ ys"
         "entriesL (insertPath cmp key l @ Frame L c k v r (cnt + 1) # fs) = entriesL fs @ xs"
         "entriesR (insertPath cmp key l @ Frame L c k v r (cnt + 1) # fs)
            = ys @ (k, v) # entries r @ entriesR fs"
         "\<forall>x\<in>set xs. cmp (fst x) key \<le> 0" "\<forall>y\<in>set ys. cmp key (fst y) \<le> 0"
      by auto
    have "\<forall>y\<in>set (ys @ (k, v) # entries r). cmp key (fst y) \<le> 0"
      using s(5) True hi validComparator_trans[OF vc True] by auto
    then show ?thesis using s True
      by (intro exI[of _ xs] exI[of _ "ys @ (k, v) # entries r"])
         (simp add: insertPath_simps)
  next
    case False
    note kk = validComparator_total[OF vc False]
    from RBNode.IH(2)[OF sr, of "Frame R c k v l (cnt + 1) # fs"] obtain xs ys where
      s: "entries r = xs @ ys"
         "entriesL (insertPath cmp key r @ Frame R c k v l (cnt + 1) # fs)
            = entriesL fs @ entries l @ (k, v) # xs"
         "entriesR (insertPath cmp key r @ Frame R c k v l (cnt + 1) # fs) = ys @ entriesR fs"
         "\<forall>x\<in>set xs. cmp (fst x) key \<le> 0" "\<forall>y\<in>set ys. cmp key (fst y) \<le> 0"
      by auto
    have "\<forall>x\<in>set (entries l @ (k, v) # xs). cmp (fst x) key \<le> 0"
      using s(4) kk lo validComparator_trans[OF vc _ kk] by auto
    then show ?thesis using s False
      by (intro exI[of _ "entries l @ (k, v) # xs"] exI[of _ ys])
         (simp add: insertPath_simps)
  qed
qed

lemma ascending_rbt_insert:
  assumes "validComparator (compare t)" "ascending (compare t) (map fst (entries (root t)))"
  shows "ascending (compare t) (map fst (entries (root (rbt_insert t key val))))"
proof -
  from insertPath_bounds[OF assms, of key "[]"] obtain xs ys where
    s: "entries (root t) = xs @ ys" "entriesL (insertPath (compare t) key (root t)) = xs"
       "entriesR (insertPath (compare t) key (root t)) = ys"
       "\<forall>x\<in>set xs. compare t (fst x) key \<le> 0" "\<forall>y\<in>set ys. compare t key (fst y) \<le> 0"
    by auto
  have "entries (root (rbt_insert t key val)) = xs @ (key, val) # ys"
    using s(2,3) by (simp add: root_rbt_insert entries_insertRebalance entries_plug)
  then show ?thesis using assms(2) s(1,4,5)
    by (auto simp: ascending_def sorted_wrt_append)
qed

lemma iter_remove_ascending:
  assumes "rbInv (root (tree it))" "validStack (root (tree it)) (stack it)" "iter_remove it = Inr t'"
    "ascending cmp (map fst (entries (root (tree it))))"
  shows "ascending cmp (map fst (entries (root t')))"
proof (cases "stack it")
  case EmptyStack
  then show ?thesis using assms iter_remove_ok[of it] by simp
next
  case (Stack anc cur)
  then obtain c k v l r cnt where "cur = RBNode c k v l r cnt"
    using assms(2) by (cases cur) (auto simp: validStack_def)
  with Stack iter_remove_ok[OF assms(1,2)] assms(3)
  obtain xs ys where "entries (root (tree it)) = xs @ (k, v) # ys" "entries (root t') = xs @ ys"
    by auto
  then show ?thesis using assms(4) by (auto simp: ascending_def sorted_wrt_append)
qed

lemma reachable_ascending:
  "reachable t \<Longrightarrow> validComparator (compare t) \<Longrightarrow> ascending (compare t) (rbt_keys t)"
proof (induction rule: reachable.induct)
  case (empty cmp)
  show ?case by (simp add: createRBTree_def rbt_keys_entries ascending_def)
next
  case (insert t key val)
  then show ?case using ascending_rbt_insert[of t key val] by (simp add: rbt_keys_entries)
next
  case (remove t key t')
  have inv: "rbInv (root t)" using remove.hyps(1) by (rule reachable_rbInv)
  have "compare t' = compare t"
    using iter_remove_inv[of "rbt_find t key" t'] inv validStack_rbt_find[of t key] remove.hyps(2)
    by (simp add: rbt_remove_def)
  then show ?case
    using iter_remove_ascending[of "rbt_find t key" t' "compare t"] inv
      validStack_rbt_find[of t key] remove
    by (simp add: rbt_remove_def rbt_keys_entries)
next
  case (remove_at t idx it t')
  have inv: "rbInv (root t)" using remove_at.hyps(1) by (rule reachable_rbInv)
  have v: "tree it = t" "validStack (root t) (stack it)"
    using rbt_at_valid[OF remove_at.hyps(2)] by simp_all
  have "compare t' = compare t"
    using iter_remove_inv[of it t'] inv v remove_at.hyps(3) by simp
  then show ?case
    using iter_remove_ascending[of it t' "compare t"] inv v remove_at
    by (simp add: rbt_keys_entries)
qed

lemma validComparator_defaultCompare: "validComparator (defaultCompare :: 'k::linorder \<Rightarrow> 'k \<Rightarrow> int)"
  by (auto simp: validComparator_def defaultCompare_def split: if_splits)

lemma ascending_defaultCompare:
  "ascending defaultCompare ks = sorted (ks :: 'k::linorder list)"
proof -
  have "(\<lambda>a b :: 'k. defaultCompare a b \<le> 0) = (\<le>)"
    by (auto simp: defaultCompare_def fun_eq_iff split: if_splits)
  then show ?thesis by (simp add: ascending_def)
qed

lemma rbt_length_countOf: "rbt_length t = countOf (root t)"
  by (cases "root t") (simp_all add: rbt_length_def)

lemma blackCounts_balanced: "balanced n \<Longrightarrow> set (blackCounts n) = {blackHeight n}"
  by (induction n) auto

lemma rbt_at_ok:
  assumes "countsOk (root t)" "0 \<le> idx" "idx < rbt_length t"
  shows "\<exists>it. rbt_at t idx = Inr it \<and> iter_valid it \<and> iter_index it = Inr idx
           \<and> iter_key it = Some (rbt_keys t ! nat idx)"
proof -
  from atLoop_ok[OF assms(1,2), of "[]"] assms(3)
  obtain anc c k v l r cnt where
    a: "atLoop [] (root t) idx = Inr (Stack anc (RBNode c k v l r cnt))"
       "\<forall>e\<in>set anc. fst e \<noteq> Null" "sum_list (map rankStep anc) + countOf l = idx"
       "entries (root t) ! nat idx = (k, v)"
    by (auto simp: rbt_length_countOf)
  let ?it = "\<lparr>tree = t, stack = Stack anc (RBNode c k v l r cnt)\<rparr>"
  have at: "rbt_at t idx = Inr ?it" using a(1) assms(2) by (simp add: rbt_at_def)
  have "indexLoop (countOf l) (rev anc) = Inr (countOf l + sum_list (map rankStep (rev anc)))"
    using a(2) by (intro indexLoop_ok) simp
  then have ix: "iter_index ?it = Inr idx"
    using a(3) by (simp add: iter_index_def rev_map[symmetric] add.commute)
  have "nat idx < length (entries (root t))"
    using assms countOf_length[OF assms(1)] by (simp add: rbt_length_countOf)
  then have "rbt_keys t ! nat idx = k" using a(4) by (simp add: rbt_keys_entries)
  then have "iter_key ?it = Some (rbt_keys t ! nat idx)" by (simp add: iter_key_def)
  then show ?thesis using at ix by (simp add: iter_valid_def)
qed

lemma rbt_at_out_of_range:
  "reachable t \<Longrightarrow> root t \<noteq> Null \<Longrightarrow> idx < 0 \<or> rbt_length t \<le> idx \<Longrightarrow>
   rbt_at t idx = Inr \<lparr>tree = t, stack = EmptyStack\<rparr>"
  using reachable_rbInv[of t] atLoop_invalid[of "root t" idx "[]"]
  by (auto simp: rbt_at_def rbInv_def rbt_length_countOf)

section \<open>Frames of the operations on the store\<close>

text \<open>
  Every assignment of \<open>insert\<close>, \<open>update\<close> and \<open>remove\<close> goes to a cell that the same call
  has allocated: the arrays \<open>n_stack\<close> and \<open>cstack\<close> hold only copies when the assignments
  start, and a sibling or an uncle is cloned or repainted before anything is assigned to
  it. In the lemmas \<open>base\<close> is the size of the store at the start of the call; an address
  is new when it is not below \<open>base\<close>.
\<close>

lemma ext_refl: "base \<le> length h \<Longrightarrow> ext base h h"
  by (simp add: ext_def)

lemma ext_trans: "ext base h1 h2 \<Longrightarrow> ext base h2 h3 \<Longrightarrow> ext base h1 h3"
  by (auto simp: ext_def)

lemma wr_ext: "wr h a f = Some h' \<Longrightarrow> base \<le> a \<Longrightarrow> base \<le> length h \<Longrightarrow> ext base h h'"
  by (auto simp: wr_def ext_def split: if_splits)

lemma alloc_ext: "alloc h c = (a, h') \<Longrightarrow> base \<le> length h \<Longrightarrow> ext base h h' \<and> base \<le> a"
  by (auto simp: alloc_def ext_def)

lemma ext_base: "ext base h h' \<Longrightarrow> base \<le> length h'"
  by (simp add: ext_def)

lemma entry_mem: "entry stk i = Some a \<Longrightarrow> a \<in> set stk"
  by (auto simp: entry_def split: if_splits)

lemma s_repaint_ext:
  "s_repaint h col r = Some (a, h') \<Longrightarrow> base \<le> length h \<Longrightarrow> ext base h h' \<and> base \<le> a"
  by (auto simp: s_repaint_def split: Option.bind_splits dest: alloc_ext)

lemma recolor_ext:
  assumes "recolor h d p pp y = Some h'" "base \<le> p" "base \<le> pp" "base \<le> length h"
  shows "ext base h h'"
proof -
  from assms(1) obtain h1 y' h2 h3 where
    s: "wr h p (setColor BLACK) = Some h1" "s_repaint h1 BLACK y = Some (y', h2)"
       "wr h2 pp (setFar d (Some y')) = Some h3" "wr h3 pp (setColor RED) = Some h'"
    by (auto simp: recolor_def split: Option.bind_splits)
  have e1: "ext base h h1" using s(1) assms by (intro wr_ext)
  have e2: "ext base h1 h2" using s_repaint_ext[OF s(2)] ext_base[OF e1] by simp
  have e3: "ext base h2 h3" using s(3) assms ext_base[OF e2] by (intro wr_ext)
  have e4: "ext base h3 h'" using s(4) assms ext_base[OF e3] by (intro wr_ext)
  show ?thesis using e1 e2 e3 e4 by (blast intro: ext_trans)
qed

lemma wr_ext_chain:
  "wr h a f = Some h' \<Longrightarrow> base \<le> a \<Longrightarrow> ext base h0 h \<Longrightarrow> ext base h0 h'"
  by (auto simp: wr_def ext_def split: if_splits)

lemma s_recount_ext_chain:
  "s_recount h a = Some h' \<Longrightarrow> base \<le> a \<Longrightarrow> ext base h0 h \<Longrightarrow> ext base h0 h'"
  by (clarsimp simp: s_recount_def bind_eq_Some_conv) (erule wr_ext_chain; assumption)

lemma relink_ext_chain:
  "relink h stk s d pp x = Some h' \<Longrightarrow> \<forall>a\<in>set stk. base \<le> a \<Longrightarrow> ext base h0 h \<Longrightarrow>
   ext base h0 h'"
  by (auto simp: relink_def bind_eq_Some_conv split: if_splits
           dest!: entry_mem elim: wr_ext_chain)

lemma set_update2: "a \<in> set stk \<Longrightarrow> b \<in> set stk \<Longrightarrow> set (stk[i := a, j := b]) \<subseteq> set stk"
  using set_update_subset_insert[of "stk[i := a]" j b] set_update_subset_insert[of stk i a]
  by blast

lemma rotSingle_ext:
  assumes "rotSingle h stk s d p n pp = Some (stk', h')" "\<forall>a\<in>set stk. base \<le> a"
    "p \<in> set stk" "n \<in> set stk" "pp \<in> set stk" "base \<le> length h"
  shows "ext base h h' \<and> (\<forall>a\<in>set stk'. base \<le> a)"
proof -
  have st: "\<forall>a\<in>set (stk[s - 2 := p, s - 1 := n]). base \<le> a"
    using set_update2[OF assms(3,4)] assms(2) by blast
  have b: "base \<le> p" "base \<le> pp" "base \<le> n" using assms by auto
  have e0: "ext base h h" using assms(6) by (rule ext_refl)
  have "ext base h h'"
    using assms(1) b e0
    apply (simp only: rotSingle_def Let_def bind_eq_Some_conv option.inject prod.inject)
    apply (elim exE conjE)
    apply hypsubst
    apply (erule relink_ext_chain, rule st)
    apply (erule wr_ext_chain s_recount_ext_chain, assumption)+
    apply assumption
    done
  moreover have "stk' = stk[s - 2 := p, s - 1 := n]"
    using assms(1) by (auto simp: rotSingle_def Let_def bind_eq_Some_conv)
  ultimately show ?thesis using st by simp
qed

lemma rotDouble_ext:
  assumes "rotDouble h stk s d p n pp = Some (stk', h')" "\<forall>a\<in>set stk. base \<le> a"
    "p \<in> set stk" "n \<in> set stk" "pp \<in> set stk" "base \<le> length h"
  shows "ext base h h' \<and> (\<forall>a\<in>set stk'. base \<le> a)"
proof -
  have st: "\<forall>a\<in>set (stk[s - 2 := n, s - 1 := p]). base \<le> a"
    using set_update2[OF assms(4,3)] assms(2) by blast
  have b: "base \<le> p" "base \<le> pp" "base \<le> n" using assms by auto
  have e0: "ext base h h" using assms(6) by (rule ext_refl)
  have "ext base h h'"
    using assms(1) b e0
    apply (simp only: rotDouble_def Let_def bind_eq_Some_conv option.inject prod.inject)
    apply (elim exE conjE)
    apply hypsubst
    apply (erule relink_ext_chain, rule st)
    apply (erule wr_ext_chain s_recount_ext_chain, assumption)+
    apply assumption
    done
  moreover have "stk' = stk[s - 2 := n, s - 1 := p]"
    using assms(1) by (auto simp: rotDouble_def Let_def bind_eq_Some_conv)
  ultimately show ?thesis using st by simp
qed

lemma s_rebalance_ext:
  "s_rebalance h stk s = Some (stk', h') \<Longrightarrow> \<forall>a\<in>set stk. base \<le> a \<Longrightarrow> base \<le> length h \<Longrightarrow>
   ext base h h' \<and> (\<forall>a\<in>set stk'. base \<le> a)"
proof (induction s arbitrary: h stk rule: less_induct)
  case (less s)
  note run = less.prems(1)[unfolded s_rebalance.simps[of h stk s]]
  show ?case
  proof (cases "s > 1")
    case False
    then show ?thesis using run less.prems(2,3) by (simp add: ext_refl)
  next
    case True
    from run True obtain p n pc nc where
      pn: "entry stk (s - 1) = Some p" "entry stk s = Some n" "rd h p = Some pc" "rd h n = Some nc"
      by (auto simp: bind_eq_Some_conv)
    have mem: "p \<in> set stk" "n \<in> set stk" using pn by (auto dest: entry_mem)
    show ?thesis
    proof (cases "cellColor pc = BLACK \<or> cellColor nc = BLACK")
      case brk: True
      then show ?thesis using run True pn less.prems(2,3) by (auto simp: ext_refl)
    next
      case go: False
      from run True pn go obtain pp ppc yred where
        pp: "entry stk (s - 2) = Some pp" "rd h pp = Some ppc"
            "redAt h (far (if cellLeft ppc = Some p then L else R) ppc) = Some yred"
        by (auto simp: Let_def bind_eq_Some_conv)
      let ?d = "if cellLeft ppc = Some p then L else R"
      have mpp: "pp \<in> set stk" using pp by (auto dest: entry_mem)
      show ?thesis
      proof (cases yred)
        case True
        from run \<open>s > 1\<close> pn go pp True obtain h1 where
          r: "recolor h ?d p pp (far ?d ppc) = Some h1" "s_rebalance h1 stk (s - 2) = Some (stk', h')"
          by (auto simp: Let_def bind_eq_Some_conv)
        have e1: "ext base h h1" using mem mpp less.prems(2,3) by (intro recolor_ext[OF r(1)]) auto
        have "s - 2 < s" using \<open>s > 1\<close> by simp
        from less.IH[OF this r(2) less.prems(2) ext_base[OF e1]]
        show ?thesis using e1 by (blast intro: ext_trans)
      next
        case False
        show ?thesis
        proof (cases "near ?d pc = Some n")
          case True
          with run \<open>s > 1\<close> pn go pp False
          have "rotSingle h stk s ?d p n pp = Some (stk', h')"
            by (auto simp: Let_def bind_eq_Some_conv)
          then show ?thesis using less.prems(2) mem mpp less.prems(3) by (rule rotSingle_ext)
        next
          case nn: False
          with run \<open>s > 1\<close> pn go pp False
          have "rotDouble h stk s ?d p n pp = Some (stk', h')"
            by (auto simp: Let_def bind_eq_Some_conv)
          then show ?thesis using less.prems(2) mem mpp less.prems(3) by (rule rotDouble_ext)
        qed
      qed
    qed
  qed
qed

lemma s_rebuild_ext:
  "s_rebuild h ns ds leaf = Some (ns', h') \<Longrightarrow> base \<le> length h \<Longrightarrow>
   ext base h h' \<and> (\<forall>a\<in>set ns'. base \<le> a)"
proof (induction h ns ds leaf arbitrary: ns' h' rule: s_rebuild.induct)
  case (1 h ds leaf)
  then show ?case by (simp add: ext_refl)
next
  case (2 h a ns leaf)
  then show ?case by simp
next
  case (3 h a ns d ds leaf)
  from "3.prems"(1) obtain ms h1 c a' where
    s: "s_rebuild h ns ds leaf = Some (ms, h1)" "rd h1 a = Some c"
       "alloc h1 (if d \<le> 0 then c\<lparr>cellLeft := Some (case ms of [] \<Rightarrow> leaf | b # bs \<Rightarrow> b),
                                    cellCount := cellCount c + 1\<rparr>
                 else c\<lparr>cellRight := Some (case ms of [] \<Rightarrow> leaf | b # bs \<Rightarrow> b),
                        cellCount := cellCount c + 1\<rparr>) = (a', h')"
       "ns' = a' # ms"
    by (auto simp: Let_def bind_eq_Some_conv alloc_def)
  from "3.IH"[OF s(1) "3.prems"(2)] have e1: "ext base h h1" and m: "\<forall>a\<in>set ms. base \<le> a"
    by simp_all
  from alloc_ext[OF s(3) ext_base[OF e1]] have e2: "ext base h1 h'" and a: "base \<le> a'"
    by simp_all
  show ?case using ext_trans[OF e1 e2] m a s(4) by simp
qed

lemma s_insert_ext:
  assumes "s_insert fuel cmp h rt key val = Some (r', h')" "base \<le> length h"
  shows "ext base h h'"
proof -
  from assms(1) obtain ns ds leaf h1 ns' h2 stk h3 r where
    s: "alloc h \<lparr>cellColor = RED, cellKey = key, cellValue = val,
                 cellLeft = None, cellRight = None, cellCount = 1\<rparr> = (leaf, h1)"
       "s_rebuild h1 ns ds leaf = Some (ns', h2)"
       "s_rebalance h2 (ns' @ [leaf]) (length ns') = Some (stk, h3)"
       "entry stk 0 = Some r" "wr h3 r (setColor BLACK) = Some h'"
    by (auto simp: s_insert_def Let_def bind_eq_Some_conv alloc_def)
  from alloc_ext[OF s(1) assms(2)] have e1: "ext base h h1" and l: "base \<le> leaf" by simp_all
  from s_rebuild_ext[OF s(2) ext_base[OF e1]] have e2: "ext base h1 h2"
    and m: "\<forall>a\<in>set ns'. base \<le> a" by simp_all
  have "\<forall>a\<in>set (ns' @ [leaf]). base \<le> a" using m l by simp
  from s_rebalance_ext[OF s(3) this ext_base[OF e2]] have e3: "ext base h2 h3"
    and k: "\<forall>a\<in>set stk. base \<le> a" by simp_all
  have "base \<le> r" using k entry_mem[OF s(4)] by simp
  from wr_ext[OF s(5) this ext_base[OF e3]] have e4: "ext base h3 h'" .
  show ?thesis using e1 e2 e3 e4 by (blast intro: ext_trans)
qed

lemma new_fwd: "s_new h c = Some (a, h') \<Longrightarrow> ext base h0 h \<Longrightarrow> ext base h0 h' \<and> base \<le> a"
  by (auto simp: s_new_def alloc_def ext_def)

lemma clone_fwd:
  "s_cloneNode h r = Some (a, h') \<Longrightarrow> ext base h0 h \<Longrightarrow> ext base h0 h' \<and> base \<le> a"
  by (auto simp: s_cloneNode_def bind_eq_Some_conv dest: new_fwd)

lemma repaint_fwd:
  "s_repaint h col r = Some (a, h') \<Longrightarrow> ext base h0 h \<Longrightarrow> ext base h0 h' \<and> base \<le> a"
  by (auto simp: s_repaint_def bind_eq_Some_conv alloc_def ext_def)

lemma upd_mem: "x \<in> set (xs[i := y]) \<Longrightarrow> x = y \<or> x \<in> set xs"
  using set_update_subset_insert[of xs i y] by blast

lemma fixFarRed_ext:
  assumes "fixFarRed h stk i d n p s = Some (stk', h')" "ext base h0 h"
    "\<forall>a\<in>set stk. base \<le> a" "base \<le> n" "base \<le> p"
  shows "ext base h0 h' \<and> (\<forall>a\<in>set stk'. base \<le> a)"
  using assms
  apply (clarsimp simp: fixFarRed_def bind_eq_Some_conv)
  apply ((drule (1) clone_fwd, erule conjE | drule (2) wr_ext_chain | drule (2) s_recount_ext_chain
         | drule (2) relink_ext_chain)+)
  apply (auto dest!: upd_mem)
  done

lemma fixNearRed_ext:
  assumes "fixNearRed h stk i d n p s = Some (stk', h')" "ext base h0 h"
    "\<forall>a\<in>set stk. base \<le> a" "base \<le> n" "base \<le> p"
  shows "ext base h0 h' \<and> (\<forall>a\<in>set stk'. base \<le> a)"
  using assms
  apply (clarsimp simp: fixNearRed_def bind_eq_Some_conv)
  apply ((drule (1) clone_fwd, erule conjE | drule (2) wr_ext_chain | drule (2) s_recount_ext_chain
         | drule (2) relink_ext_chain)+)
  apply (auto dest!: upd_mem)
  done

lemma fixRepaint_ext:
  assumes "fixRepaint h d p s = Some h'" "ext base h0 h" "base \<le> p"
  shows "ext base h0 h'"
  using assms
  apply (clarsimp simp: fixRepaint_def bind_eq_Some_conv)
  apply ((drule (1) repaint_fwd, erule conjE | drule (2) wr_ext_chain)+)
  apply assumption
  done

lemma fixRedSibling_ext:
  assumes "fixRedSibling h stk i d n p s = Some (stk', h')" "ext base h0 h"
    "\<forall>a\<in>set stk. base \<le> a" "base \<le> n" "base \<le> p"
  shows "ext base h0 h' \<and> (\<forall>a\<in>set stk'. base \<le> a)"
  using assms
  apply (clarsimp simp: fixRedSibling_def bind_eq_Some_conv Let_def)
  apply ((drule (1) clone_fwd, erule conjE | drule (2) wr_ext_chain | drule (2) s_recount_ext_chain
         | drule (2) relink_ext_chain)+)
  apply (auto dest!: upd_mem)
  done

lemma s_copyPath_ext:
  "s_copyPath h path f = Some (cs, h') \<Longrightarrow> ext base h0 h \<Longrightarrow>
   ext base h0 h' \<and> (\<forall>a\<in>set cs. base \<le> a)"
proof (induction h path f arbitrary: cs h' rule: s_copyPath.induct)
  case (1 h f)
  then show ?case by simp
next
  case (2 h a f)
  then show ?case by (auto simp: bind_eq_Some_conv dest: new_fwd)
next
  case (3 h a b rest f)
  from "3.prems"(1) obtain ms h1 c a' lower x where
    s: "s_copyPath h (b # rest) f = Some (ms, h1)" "s_new h1 x = Some (a', h')" "cs = a' # ms"
    by (auto simp: bind_eq_Some_conv)
  from "3.IH"[OF s(1) "3.prems"(2)] have e1: "ext base h0 h1" and m: "\<forall>a\<in>set ms. base \<le> a"
    by simp_all
  from new_fwd[OF s(2) e1] show ?case using m s(3) by simp
qed

lemma s_copyRight_ext:
  "s_copyRight h ps lower = Some (cs, h') \<Longrightarrow> ext base h0 h \<Longrightarrow>
   ext base h0 h' \<and> (\<forall>a\<in>set cs. base \<le> a)"
proof (induction h ps lower arbitrary: cs h' rule: s_copyRight.induct)
  case (1 h lower)
  then show ?case by simp
next
  case (2 h a ps lower)
  from "2.prems"(1) obtain ms h1 a' x where
    s: "s_copyRight h ps lower = Some (ms, h1)" "s_new h1 x = Some (a', h')" "cs = a' # ms"
    by (auto simp: bind_eq_Some_conv)
  from "2.IH"[OF s(1) "2.prems"(2)] have e1: "ext base h0 h1" and m: "\<forall>a\<in>set ms. base \<le> a"
    by simp_all
  from new_fwd[OF s(2) e1] show ?case using m s(3) by simp
qed

lemma s_decr_ext:
  "s_decr h as = Some h' \<Longrightarrow> \<forall>a\<in>set as. base \<le> a \<Longrightarrow> ext base h0 h \<Longrightarrow> ext base h0 h'"
proof (induction as arbitrary: h)
  case Nil
  then show ?case by simp
next
  case (Cons a as)
  from Cons.prems(1) obtain h1 where
    s: "wr h a (\<lambda>c. c\<lparr>cellCount := cellCount c - 1\<rparr>) = Some h1" "s_decr h1 as = Some h'"
    by (auto simp: bind_eq_Some_conv)
  have "ext base h0 h1" using wr_ext_chain[OF s(1) _ Cons.prems(3)] Cons.prems(2) by simp
  from Cons.IH[OF s(2) _ this] show ?case using Cons.prems(2) by simp
qed

lemma s_swapPred_ext:
  assumes "s_swapPred fuel h cs = Some (cs', h')" "ext base h0 h" "\<forall>a\<in>set cs. base \<le> a"
  shows "ext base h0 h' \<and> (\<forall>a\<in>set cs'. base \<le> a)"
proof -
  from assms(1) obtain v z' h1 h2 h3 ps ps' h4 x f1 f2 f3 where
    s: "entry cs (length cs - 1) = Some v" "s_new h x = Some (z', h1)"
       "wr h1 v f1 = Some h2" "wr h2 v f2 = Some h3" "s_copyRight h3 ps z' = Some (ps', h4)"
       "wr h4 v f3 = Some h'" "cs' = cs @ ps' @ [z']"
    by (auto simp: s_swapPred_def bind_eq_Some_conv)
  have v: "base \<le> v" using entry_mem[OF s(1)] assms(3) by simp
  from new_fwd[OF s(2) assms(2)] have e1: "ext base h0 h1" and z: "base \<le> z'" by simp_all
  have e2: "ext base h0 h2" using wr_ext_chain[OF s(3) v e1] .
  have e3: "ext base h0 h3" using wr_ext_chain[OF s(4) v e2] .
  from s_copyRight_ext[OF s(5) e3] have e4: "ext base h0 h4" and p: "\<forall>a\<in>set ps'. base \<le> a"
    by simp_all
  have e5: "ext base h0 h'" using wr_ext_chain[OF s(6) v e4] .
  show ?thesis using e5 p z assms(3) s(7) by auto
qed

lemma s_fixDoubleBlack_ext:
  "s_fixDoubleBlack fuel h stk i = Some (stk', h') \<Longrightarrow> ext base h0 h \<Longrightarrow>
   \<forall>a\<in>set stk. base \<le> a \<Longrightarrow> ext base h0 h' \<and> (\<forall>a\<in>set stk'. base \<le> a)"
proof (induction fuel arbitrary: h stk i)
  case 0
  then show ?case by simp
next
  case (Suc fuel)
  note run = Suc.prems(1)[unfolded s_fixDoubleBlack.simps]
  from run obtain n where n: "entry stk i = Some n" by (auto simp: bind_eq_Some_conv)
  have bn: "base \<le> n" using entry_mem[OF n] Suc.prems(3) by simp
  show ?case
  proof (cases "i = 0")
    case True
    with run n obtain "wr h n (setColor BLACK) = Some h'" "stk' = stk"
      by (auto simp: bind_eq_Some_conv)
    then show ?thesis using wr_ext_chain[OF _ bn Suc.prems(2)] Suc.prems(3) by simp
  next
    case False
    from run n False obtain p pc s sc farRed nearRed where
      s: "entry stk (i - 1) = Some p" "rd h p = Some pc"
         "far (if cellLeft pc = Some n then L else R) pc = Some s" "rd h s = Some sc"
         "redAt h (far (if cellLeft pc = Some n then L else R) sc) = Some farRed"
         "redAt h (near (if cellLeft pc = Some n then L else R) sc) = Some nearRed"
      by (auto simp: bind_eq_Some_conv Let_def)
    let ?d = "if cellLeft pc = Some n then L else R"
    have bp: "base \<le> p" using entry_mem[OF s(1)] Suc.prems(3) by simp
    note step = run[unfolded n s(1) s(2) Let_def bind.bind_lunit s(3) s(4) s(5) s(6)]
    consider (a) farRed | (b) "\<not> farRed" nearRed
      | (c) "\<not> farRed" "\<not> nearRed" "cellColor sc = BLACK" "cellColor pc = RED"
      | (d) "\<not> farRed" "\<not> nearRed" "cellColor sc = BLACK" "cellColor pc \<noteq> RED"
      | (e) "\<not> farRed" "\<not> nearRed" "cellColor sc \<noteq> BLACK"
      by blast
    then show ?thesis
    proof cases
      case a
      with step False have "fixFarRed h stk i ?d n p s = Some (stk', h')" by simp
      from fixFarRed_ext[OF this Suc.prems(2,3) bn bp] show ?thesis .
    next
      case b
      with step False have "fixNearRed h stk i ?d n p s = Some (stk', h')" by simp
      from fixNearRed_ext[OF this Suc.prems(2,3) bn bp] show ?thesis .
    next
      case c
      with step False obtain h1 where
        r: "wr h p (setColor BLACK) = Some h1" "fixRepaint h1 ?d p s = Some h'" "stk' = stk"
        by (auto simp: bind_eq_Some_conv)
      from fixRepaint_ext[OF r(2) wr_ext_chain[OF r(1) bp Suc.prems(2)] bp]
      show ?thesis using Suc.prems(3) r(3) by simp
    next
      case d
      with step False obtain h1 where
        r: "fixRepaint h ?d p s = Some h1" "s_fixDoubleBlack fuel h1 stk (i - 1) = Some (stk', h')"
        by (auto simp: bind_eq_Some_conv)
      from Suc.IH[OF r(2) fixRepaint_ext[OF r(1) Suc.prems(2) bp] Suc.prems(3)]
      show ?thesis .
    next
      case e
      with step False obtain stk1 h1 where
        r: "fixRedSibling h stk i ?d n p s = Some (stk1, h1)"
           "s_fixDoubleBlack fuel h1 stk1 (i + 1) = Some (stk', h')"
        by (auto simp: bind_eq_Some_conv)
      from fixRedSibling_ext[OF r(1) Suc.prems(2,3) bn bp]
      have "ext base h0 h1" "\<forall>a\<in>set stk1. base \<le> a" by simp_all
      from Suc.IH[OF r(2) this] show ?thesis .
    qed
  qed
qed

lemma if_None_eq_Some: "((if c then None else x) = Some y) = (\<not> c \<and> x = Some y)"
  by simp

lemma s_removeLeaf_ext:
  assumes run: "s_removeLeaf fuel h cs = Some (r, h')" and e: "ext base h0 h"
    and f: "\<forall>a\<in>set cs. base \<le> a"
  shows "ext base h0 h'"
proof -
  from run obtain n nc where n: "entry cs (length cs - 1) = Some n" "rd h n = Some nc"
    by (auto simp: s_removeLeaf_def bind_eq_Some_conv)
  have bn: "base \<le> n" using entry_mem[OF n(1)] f by simp
  have fb: "\<forall>a\<in>set (butlast cs). base \<le> a" using f by (auto dest: in_set_butlastD)
  note step = run[unfolded s_removeLeaf_def n bind.bind_lunit]
  consider (red) "cellColor nc = RED"
    | (single) "cellColor nc \<noteq> RED" "cellLeft nc \<noteq> None \<or> cellRight nc \<noteq> None"
    | (last) "cellColor nc \<noteq> RED" "cellLeft nc = None" "cellRight nc = None" "length cs = 1"
    | (hard) "cellColor nc \<noteq> RED" "cellLeft nc = None" "cellRight nc = None" "length cs \<noteq> 1"
    by blast
  then show ?thesis
  proof cases
    case red
    with step obtain p pc h1 where
      s: "entry cs (length cs - 2) = Some p" "rd h p = Some pc"
         "(if cellLeft pc = Some n then wr h p (\<lambda>c. c\<lparr>cellLeft := None\<rparr>)
           else if cellRight pc = Some n then wr h p (\<lambda>c. c\<lparr>cellRight := None\<rparr>)
           else Some h) = Some h1"
         "s_decr h1 (butlast cs) = Some h'"
      by (auto simp: bind_eq_Some_conv if_None_eq_Some)
    have bp: "base \<le> p" using entry_mem[OF s(1)] f by simp
    have "ext base h0 h1" using s(3) e bp by (auto split: if_splits elim: wr_ext_chain)
    from s_decr_ext[OF s(4) fb this] show ?thesis .
  next
    case single
    with step obtain vc h1 h2 where
      s: "wr h n (\<lambda>c. vc) = Some h1" "wr h1 n (setColor BLACK) = Some h2"
         "s_decr h2 (butlast cs) = Some h'"
      by (auto simp: bind_eq_Some_conv)
    have "ext base h0 h2" using wr_ext_chain[OF s(2) bn wr_ext_chain[OF s(1) bn e]] .
    from s_decr_ext[OF s(3) fb this] show ?thesis .
  next
    case last
    with step have "h' = h" by auto
    then show ?thesis using e by simp
  next
    case hard
    with step obtain h1 parent stk h2 pc where
      s: "s_decr h cs = Some h1" "entry cs (length cs - 2) = Some parent"
         "s_fixDoubleBlack fuel h1 cs (length cs - 1) = Some (stk, h2)"
         "rd h2 parent = Some pc"
         "(if cellLeft pc = Some n then wr h2 parent (\<lambda>c. c\<lparr>cellLeft := None\<rparr>)
           else wr h2 parent (\<lambda>c. c\<lparr>cellRight := None\<rparr>)) = Some h'"
      by (auto simp: bind_eq_Some_conv)
    have bp: "base \<le> parent" using entry_mem[OF s(2)] f by simp
    have e1: "ext base h0 h1" using s_decr_ext[OF s(1) f e] .
    from s_fixDoubleBlack_ext[OF s(3) e1 f] have e2: "ext base h0 h2" by simp
    show ?thesis using s(5) e2 bp by (auto split: if_splits elim: wr_ext_chain)
  qed
qed

lemma s_remove_ext:
  assumes run: "s_remove fuel h rt path = Some (r, h')" and e: "ext base h0 h"
  shows "ext base h0 h'"
proof (cases "path = []")
  case True
  then show ?thesis using run e by (simp add: s_remove_def)
next
  case False
  with run obtain cs h1 n nc cs2 h2 where
    s: "s_copyPath h path (\<lambda>c. c) = Some (cs, h1)"
       "entry cs (length cs - 1) = Some n" "rd h1 n = Some nc"
       "(if cellLeft nc \<noteq> None \<and> cellRight nc \<noteq> None then s_swapPred fuel h1 cs
         else Some (cs, h1)) = Some (cs2, h2)"
       "s_removeLeaf fuel h2 cs2 = Some (r, h')"
    by (auto simp: s_remove_def bind_eq_Some_conv)
  from s_copyPath_ext[OF s(1) e] have e1: "ext base h0 h1" and f1: "\<forall>a\<in>set cs. base \<le> a"
    by simp_all
  have "ext base h0 h2 \<and> (\<forall>a\<in>set cs2. base \<le> a)"
    using s(4) e1 f1 s_swapPred_ext[of fuel h1 cs cs2 h2 base h0] by (auto split: if_splits)
  then show ?thesis using s_removeLeaf_ext[OF s(5)] by simp
qed

lemma s_update_ext:
  assumes run: "s_update h path val = Some (r, h')" and e: "ext base h0 h"
  shows "ext base h0 h'"
proof -
  from run obtain cs where "s_copyPath h path (\<lambda>c. c\<lparr>cellValue := val\<rparr>) = Some (cs, h')"
    by (auto simp: s_update_def bind_eq_Some_conv split: if_splits)
  from s_copyPath_ext[OF this e] show ?thesis by simp
qed

lemma s_apply_ext:
  assumes "s_apply fuel cmp h rt opn = Some (r, h')"
  shows "ext (length h) h h'"
proof -
  have e: "ext (length h) h h" by (simp add: ext_refl)
  show ?thesis
  proof (cases opn)
    case (Insert key val)
    then show ?thesis using assms s_insert_ext[of fuel cmp h rt key val r h' "length h"] by simp
  next
    case (Remove key)
    then show ?thesis using assms e
      by (auto simp: s_removeKey_def bind_eq_Some_conv elim: s_remove_ext)
  next
    case (IterRemove path)
    then show ?thesis using assms e by (auto elim: s_remove_ext)
  next
    case (IterUpdate path val)
    then show ?thesis using assms e by (auto elim: s_update_ext)
  qed
qed

lemma ext_take: "ext (length h) h h' \<Longrightarrow> take (length h) h' = h"
  by (simp add: ext_def)

lemma rd_mono: "take (length h) h' = h \<Longrightarrow> rd h a = Some c \<Longrightarrow> rd h' a = Some c"
proof -
  assume t: "take (length h) h' = h" and r: "rd h a = Some c"
  from r have a: "a < length h" "c = h ! a" by (auto simp: rd_def split: if_splits)
  have "length h \<le> length h'" using arg_cong[OF t, of length] by simp
  moreover have "h' ! a = take (length h) h' ! a" using a(1) by simp
  ultimately show ?thesis using a t by (simp add: rd_def)
qed

lemma s_tree_mono:
  "take (length h) h' = h \<Longrightarrow> s_tree n h r = Some t \<Longrightarrow> s_tree n h' r = Some t"
proof (induction n h r arbitrary: t rule: s_tree.induct)
  case (1 fuel h)
  then show ?case by simp
next
  case (2 h a)
  then show ?case by simp
next
  case (3 fuel h a)
  from "3.prems"(2) obtain c l r where
    s: "rd h a = Some c" "s_tree fuel h (cellLeft c) = Some l" "s_tree fuel h (cellRight c) = Some r"
       "t = RBNode (cellColor c) (cellKey c) (cellValue c) l r (cellCount c)"
    by (auto simp: bind_eq_Some_conv)
  from "3.IH"(1)[OF s(1) "3.prems"(1) s(2)] "3.IH"(2)[OF s(1) s(2) "3.prems"(1) s(3)]
    rd_mono[OF "3.prems"(1) s(1)] s(4)
  show ?case by simp
qed

lemma s_find_mono:
  "take (length h) h' = h \<Longrightarrow> s_find n h cmp key r = Some p \<Longrightarrow> s_find n h' cmp key r = Some p"
proof (induction n h cmp key r arbitrary: p rule: s_find.induct)
  case (1 fuel h cmp key)
  then show ?case by simp
next
  case (2 h cmp key a)
  then show ?case by simp
next
  case (3 fuel h cmp key a)
  from "3.prems"(2) obtain c where c: "rd h a = Some c" by (auto simp: bind_eq_Some_conv)
  note c' = rd_mono[OF "3.prems"(1) c]
  show ?case
  proof (cases "cmp key (cellKey c) = 0")
    case True
    then show ?thesis using "3.prems"(2) c c' by simp
  next
    case False
    with "3.prems"(2) c obtain rest where
      r: "s_find fuel h cmp key (if cmp key (cellKey c) \<le> 0 then cellLeft c else cellRight c)
            = Some rest" "p = (if rest = [] then [] else a # rest)"
      by (auto simp: bind_eq_Some_conv Let_def)
    from "3.IH"[OF c refl False "3.prems"(1) r(1)] show ?thesis using c' False r(2)
      by (simp add: Let_def)
  qed
qed

lemma s_atLoop_mono:
  "take (length h) h' = h \<Longrightarrow> s_atLoop n h r idx = Some p \<Longrightarrow> s_atLoop n h' r idx = Some p"
proof (induction n arbitrary: r idx p)
  case 0
  then show ?case by simp
next
  case (Suc n)
  note m = rd_mono[OF Suc.prems(1)]
  from Suc.prems(2) obtain a c where a: "r = Some a" "rd h a = Some c"
    by (auto simp: bind_eq_Some_conv)
  note c' = m[OF a(2)]
  show ?case
  proof (cases "cellLeft c")
    case None
    show ?thesis
    proof (cases "cellRight c")
      case rn: None
      then show ?thesis using Suc.prems(2) a c' None by (auto split: if_splits)
    next
      case (Some r')
      then show ?thesis using Suc.prems(2) a c' None
        by (auto simp: bind_eq_Some_conv dest!: m Suc.IH[OF Suc.prems(1)] split: if_splits)
    qed
  next
    case (Some l)
    with Suc.prems(2) a obtain lc where lc: "rd h l = Some lc" by (auto simp: bind_eq_Some_conv)
    note lc' = m[OF lc]
    show ?thesis
    proof (cases "cellRight c")
      case rn: None
      then show ?thesis using Suc.prems(2) a c' Some lc lc'
        by (auto simp: bind_eq_Some_conv dest!: Suc.IH[OF Suc.prems(1)] split: if_splits)
    next
      case rs: (Some r')
      then show ?thesis using Suc.prems(2) a c' Some lc lc'
        by (auto simp: bind_eq_Some_conv dest!: m Suc.IH[OF Suc.prems(1)] split: if_splits)
    qed
  qed
qed

lemma s_at_mono:
  "take (length h) h' = h \<Longrightarrow> s_at n h r idx = Some p \<Longrightarrow> s_at n h' r idx = Some p"
  by (auto simp: s_at_def s_atLoop_mono split: if_splits)

text \<open>
  The two readings of the code agree on the example store: it holds the tree that the
  inserts of 1, 2, 3 and 4 build, on values and on the store, and \<open>insert\<close>, \<open>remove\<close> and \<open>update\<close> on the store give
  roots that denote the trees that the operations on values give.
\<close>

lemma store1234_denotes:
  "s_tree 3 store1234 (Some 3)
   = Some (root (rbt_insert (rbt_insert (rbt_insert (rbt_insert (createRBTree defaultCompare)
        1 10) 2 20) 3 30) 4 40))"
  by code_simp

lemma store1234_insert_agrees:
  "(case s_apply 9 defaultCompare store1234 (Some 3) (Insert 5 50) of
      None \<Rightarrow> None | Some (r, h) \<Rightarrow> s_tree 4 h r)
   = Some (root (rbt_insert \<lparr>compare = defaultCompare, root = the (s_tree 3 store1234 (Some 3))\<rparr>
        5 50))"
  by code_simp

lemma store1234_remove_agrees:
  "(case s_apply 9 defaultCompare store1234 (Some 3) (Remove 1) of
      None \<Rightarrow> None | Some (r, h) \<Rightarrow> map_option Inr (s_tree 4 h r))
   = Some (map_sum id root
       (rbt_remove \<lparr>compare = defaultCompare, root = the (s_tree 3 store1234 (Some 3))\<rparr> 1))"
  by code_simp

lemma store1234_update_agrees:
  "(case s_apply 9 defaultCompare store1234 (Some 3) (IterUpdate [3, 2, 1] 44) of
      None \<Rightarrow> None | Some (r, h) \<Rightarrow> map_option Inr (s_tree 4 h r))
   = Some (map_sum id root
       (iter_update (rbt_find \<lparr>compare = defaultCompare,
           root = the (s_tree 3 store1234 (Some 3))\<rparr> 4) 44))"
  by code_simp

lemma store_built_by_inserts:
  "(do {
      (r1, h1) \<leftarrow> s_apply 9 defaultCompare [] None (Insert (1::int) (10::int));
      (r2, h2) \<leftarrow> s_apply 9 defaultCompare h1 r1 (Insert 2 20);
      (r3, h3) \<leftarrow> s_apply 9 defaultCompare h2 r2 (Insert 3 30);
      (r4, h4) \<leftarrow> s_apply 9 defaultCompare h3 r3 (Insert 4 40);
      s_tree 3 h4 r4
    }) = s_tree 3 store1234 (Some 3)"
  by code_simp

section \<open>Properties of the tree\<close>

text \<open>The definitions that a closed example unfolds.\<close>

lemmas eval_defs = rbt_get_def rbt_insert_def createRBTree_def defaultCompare_def rbt_remove_def
  rbt_find_def iter_remove_def rbt_at_def rbt_length_def rbt_keys_def rbt_values_def rbt_forEach_def
  iter_valid_def iter_index_def iter_key_def recount_def Let_def

text \<open>
  Claim C4, as stated: after \<open>t.insert(k, v1).insert(k, v2)\<close>, \<open>get(k)\<close> returns \<open>v2\<close>. On
  the empty tree the second pair becomes the left child of the first, and \<open>get\<close> answers
  with the first node it meets on the way down: it returns \<open>v1\<close>.
\<close>

theorem C4_second_insert_not_observed:
  "rbt_get (rbt_insert (rbt_insert (createRBTree defaultCompare) (1::int) ''a'') 1 ''b'') 1 = Some ''a''
   \<and> Some ''a'' \<noteq> Some ''b''"
  by (simp add: rbt_get_def rbt_insert_def createRBTree_def defaultCompare_def)

text \<open>
  Claim C4, amended. For every tree \<open>t\<close> built from the empty tree with the default
  comparator, every key \<open>k\<close> and all values \<open>v1\<close> and \<open>v2\<close>: in
  \<open>t.insert(k, v1).insert(k, v2)\<close>, \<open>get(k)\<close> returns a value, and that value is \<open>v1\<close>, or
  \<open>v2\<close>, or a value that \<open>t\<close> already held under the key \<open>k\<close>. (\<open>insert\<close> keeps every pair;
  which of the pairs with the key \<open>k\<close> is met first depends on the shape of the tree.)
\<close>

theorem C4_get_after_two_inserts:
  fixes t :: "('k::linorder, 'v) RedBlackTree"
  assumes "reachable t" "compare t = defaultCompare"
  shows "\<exists>v. rbt_get (rbt_insert (rbt_insert t k v1) k v2) k = Some v
           \<and> (v = v1 \<or> v = v2 \<or> (k, v) \<in> set (zip (rbt_keys t) (rbt_values t)))"
proof -
  let ?t1 = "rbt_insert t k v1" and ?t2 = "rbt_insert (rbt_insert t k v1) k v2"
  have s0: "sorted (map fst (entries (root t)))" using assms by (rule reachable_sorted)
  have e1: "entries (root ?t1) = ins_list k v1 (entries (root t))"
    using assms(2) s0 by (rule entries_rbt_insert)
  have s1: "sorted (map fst (entries (root ?t1)))" unfolding e1 using s0 by (rule sorted_ins_list)
  have e2: "entries (root ?t2) = ins_list k v2 (ins_list k v1 (entries (root t)))"
    using entries_rbt_insert[of ?t1 k v2] assms(2) s1 e1 by simp
  have s2: "sorted (map fst (entries (root ?t2)))"
    unfolding e2 using s0 by (intro sorted_ins_list)
  have "k \<in> fst ` set (entries (root ?t2))" unfolding e2 by (force simp: set_ins_list)
  from getLoop_found[OF s2 this] obtain v where v: "getLoop defaultCompare k (root ?t2) = Some v"
    by blast
  then have "(k, v) \<in> set (entries (root ?t2))" by (rule getLoop_mem)
  then have "v = v1 \<or> v = v2 \<or> (k, v) \<in> set (entries (root t))"
    unfolding e2 by (auto simp: set_ins_list)
  moreover have "zip (rbt_keys t) (rbt_values t) = entries (root t)"
    by (simp add: rbt_keys_entries rbt_values_entries zip_map_fst_snd)
  ultimately show ?thesis using v assms(2) by (simp add: rbt_get_def)
qed

theorem C4_get_after_two_inserts_witness:
  "reachable (createRBTree (defaultCompare :: int \<Rightarrow> int \<Rightarrow> int) :: (int, string) RedBlackTree)
   \<and> compare (createRBTree (defaultCompare :: int \<Rightarrow> int \<Rightarrow> int) :: (int, string) RedBlackTree) = defaultCompare
   \<and> (\<exists>v. rbt_get (rbt_insert (rbt_insert (createRBTree defaultCompare) (1::int) ''a'') 1 ''b'') 1 = Some v
          \<and> (v = ''a'' \<or> v = ''b''))"
proof -
  let ?t = "createRBTree (defaultCompare :: int \<Rightarrow> int \<Rightarrow> int) :: (int, string) RedBlackTree"
  have r: "reachable ?t" by (rule reachable.empty)
  have c: "compare ?t = defaultCompare" by (simp add: createRBTree_def)
  show ?thesis using r c C4_get_after_two_inserts[OF r c, of 1 "''a''" "''b''"]
    by (auto simp: rbt_keys_def rbt_forEach_def createRBTree_def)
qed

text \<open>
  Claim C5. Every tree reachable from the empty tree by \<open>insert\<close> and \<open>remove\<close> has a root
  that is not red, no red node with a red child, the same number of black nodes on every
  path from the root to a \<open>null\<close> child, and at every node a count that is one more than
  the counts of its two subtrees. (On such trees \<open>remove\<close> never raises: see
  \<open>iter_remove_ok\<close>.)
\<close>

theorem C5_red_black_invariants:
  assumes "reachable t"
  shows "\<not> isRed (root t) \<and> noRedRed (root t) \<and> (\<exists>h. set (blackCounts (root t)) = {h})
         \<and> countsOk (root t)"
  using reachable_rbInv[OF assms] by (auto simp: rbInv_def isRed_colorOf blackCounts_balanced)

theorem C5_red_black_invariants_witness:
  "reachable \<lparr>compare = defaultCompare, root = RBNode BLACK (1::int) ''a'' Null Null 1\<rparr>
   \<and> \<not> isRed (RBNode BLACK (1::int) ''a'' Null Null 1)
   \<and> noRedRed (RBNode BLACK (1::int) ''a'' Null Null 1)
   \<and> (\<exists>h. set (blackCounts (RBNode BLACK (1::int) ''a'' Null Null 1)) = {h})
   \<and> countsOk (RBNode BLACK (1::int) ''a'' Null Null 1)"
proof -
  let ?t2 = "rbt_insert (rbt_insert (createRBTree defaultCompare) (1::int) ''a'') 2 ''b''"
  let ?t3 = "\<lparr>compare = defaultCompare, root = RBNode BLACK (1::int) ''a'' Null Null 1\<rparr>"
  have "reachable ?t2" by (intro reachable.intros)
  moreover have "rbt_remove ?t2 2 = Inr ?t3" by (simp add: eval_defs)
  ultimately have r: "reachable ?t3" by (rule reachable.remove)
  show ?thesis using r C5_red_black_invariants[OF r] by simp
qed

text \<open>
  Claim C6. Whenever \<open>insert\<close>, \<open>remove\<close> (of a tree or of an iterator) or \<open>update\<close>
  returns, on a store \<open>h\<close> and with the new store \<open>h'\<close>, every cell of \<open>h\<close> is in \<open>h'\<close> at
  its address with all its fields as they were: no node that existed before the call is
  assigned to, whether the old version reaches it or not. So the root of the old version
  denotes in \<open>h'\<close> the tree it denoted in \<open>h\<close>, which is all that \<open>get\<close>, \<open>keys\<close>,
  \<open>forEach\<close> and \<open>length\<close> depend on, and \<open>find\<close> and \<open>at\<close> from the old root give the
  same arrays of nodes.
\<close>

theorem C6_old_version_untouched:
  assumes "s_apply fuel cmp h rt opn = Some (rt', h')"
  shows "take (length h) h' = h
     \<and> (\<forall>n t. s_tree n h rt = Some t \<longrightarrow> s_tree n h' rt = Some t)
     \<and> (\<forall>n key p. s_find n h cmp key rt = Some p \<longrightarrow> s_find n h' cmp key rt = Some p)
     \<and> (\<forall>n idx p. s_at n h rt idx = Some p \<longrightarrow> s_at n h' rt idx = Some p)"
  using ext_take[OF s_apply_ext[OF assms]] by (simp add: s_tree_mono s_find_mono s_at_mono)

theorem C6_old_version_untouched_witness:
  "\<exists>rt' h'. s_apply 9 defaultCompare store1234 (Some 3) (Remove 1) = Some (rt', h')
     \<and> s_tree 3 h' rt' = Some (RBNode BLACK 3 30 (RBNode BLACK 2 20 Null Null 1)
                                 (RBNode BLACK 4 40 Null Null 1) 3)
     \<and> take (length store1234) h' = store1234
     \<and> s_tree 3 store1234 (Some 3) = Some (RBNode BLACK 2 20 (RBNode BLACK 1 10 Null Null 1)
                                 (RBNode BLACK 3 30 Null (RBNode RED 4 40 Null Null 1) 2) 4)
     \<and> s_tree 3 h' (Some 3) = Some (RBNode BLACK 2 20 (RBNode BLACK 1 10 Null Null 1)
                                 (RBNode BLACK 3 30 Null (RBNode RED 4 40 Null Null 1) 2) 4)
     \<and> s_find 3 store1234 defaultCompare 4 (Some 3) = Some [3, 2, 1]
     \<and> s_find 3 h' defaultCompare 4 (Some 3) = Some [3, 2, 1]
     \<and> s_at 3 store1234 (Some 3) 0 = Some [3, 0]
     \<and> s_at 3 h' (Some 3) 0 = Some [3, 0]"
proof -
  have "s_apply 9 defaultCompare store1234 (Some 3) (Remove 1) \<noteq> None" by code_simp
  then obtain rt' h' where
    run: "s_apply 9 defaultCompare store1234 (Some 3) (Remove 1) = Some (rt', h')" by auto
  have "(case s_apply 9 defaultCompare store1234 (Some 3) (Remove 1) of
           None \<Rightarrow> None | Some (r, h) \<Rightarrow> s_tree 3 h r)
        = Some (RBNode BLACK 3 30 (RBNode BLACK 2 20 Null Null 1) (RBNode BLACK 4 40 Null Null 1) 3)"
    by code_simp
  then have new: "s_tree 3 h' rt' = Some (RBNode BLACK 3 30 (RBNode BLACK 2 20 Null Null 1)
                                           (RBNode BLACK 4 40 Null Null 1) 3)"
    using run by simp
  have t: "s_tree 3 store1234 (Some 3) = Some (RBNode BLACK 2 20 (RBNode BLACK 1 10 Null Null 1)
                                 (RBNode BLACK 3 30 Null (RBNode RED 4 40 Null Null 1) 2) 4)"
    by code_simp
  have f: "s_find 3 store1234 defaultCompare 4 (Some 3) = Some [3, 2, 1]" by code_simp
  have a: "s_at 3 store1234 (Some 3) 0 = Some [3, 0]" by code_simp
  show ?thesis using C6_old_version_untouched[OF run] run new t f a by blast
qed

text \<open>
  Claim C7. For every reachable tree and every index \<open>i\<close> with \<open>0 \<le> i < length()\<close>, \<open>at(i)\<close>
  returns a valid iterator whose \<open>index()\<close> is \<open>i\<close> and whose key is \<open>keys()[i]\<close>; and
  whatever the comparator of the tree, if it is a valid comparator then \<open>keys()\<close> is
  ascending under it, so that \<open>keys()[i]\<close> is the \<open>i\<close>-th of the keys in ascending order.
  (Under \<open>defaultCompare\<close> ascending is \<open>sorted\<close>: see \<open>ascending_defaultCompare\<close>.)
\<close>

theorem C7_at_index_roundtrip:
  assumes "reachable t" "0 \<le> i" "i < rbt_length t"
  shows "\<exists>it. rbt_at t i = Inr it \<and> iter_valid it \<and> iter_index it = Inr i
           \<and> iter_key it = Some (rbt_keys t ! nat i)
           \<and> (validComparator (compare t) \<longrightarrow> ascending (compare t) (rbt_keys t))"
proof -
  have inv: "countsOk (root t)" using reachable_rbInv[OF assms(1)] by (simp add: rbInv_def)
  show ?thesis using rbt_at_ok[OF inv assms(2,3)] reachable_ascending[OF assms(1)] by auto
qed

theorem C7_at_index_roundtrip_witness:
  "reachable (rbt_insert (rbt_insert (rbt_insert (createRBTree (\<lambda>a b. b - a)) (5::int) ''a'') 3 ''b'') 7 ''c'')
   \<and> (0::int) \<le> 2
   \<and> 2 < rbt_length (rbt_insert (rbt_insert (rbt_insert (createRBTree (\<lambda>a b. b - a)) (5::int) ''a'') 3 ''b'') 7 ''c'')
   \<and> validComparator (\<lambda>a b :: int. b - a)
   \<and> rbt_keys (rbt_insert (rbt_insert (rbt_insert (createRBTree (\<lambda>a b. b - a)) (5::int) ''a'') 3 ''b'') 7 ''c'')
       = [7, 5, 3]
   \<and> ascending (\<lambda>a b. b - a)
        (rbt_keys (rbt_insert (rbt_insert (rbt_insert (createRBTree (\<lambda>a b. b - a)) (5::int) ''a'') 3 ''b'') 7 ''c''))
   \<and> (\<exists>it. rbt_at (rbt_insert (rbt_insert (rbt_insert (createRBTree (\<lambda>a b. b - a)) (5::int) ''a'') 3 ''b'') 7 ''c'') 2
           = Inr it
         \<and> iter_index it = Inr 2 \<and> iter_key it = Some 3)"
proof -
  let ?t = "rbt_insert (rbt_insert (rbt_insert (createRBTree (\<lambda>a b. b - a)) (5::int) ''a'') 3 ''b'') 7 ''c''"
  have r: "reachable ?t" by (intro reachable.intros)
  have i0: "(0::int) \<le> 2" by simp
  have i1: "2 < rbt_length ?t" by (simp add: eval_defs)
  have c: "compare ?t = (\<lambda>a b. b - a)" by (simp add: createRBTree_def)
  have vc: "validComparator (\<lambda>a b :: int. b - a)" by (auto simp: validComparator_def)
  have k: "rbt_keys ?t = [7, 5, 3]" by (simp add: eval_defs)
  show ?thesis using r i0 i1 C7_at_index_roundtrip[OF r i0 i1] c vc k by auto
qed

text \<open>
  Claim C8. \<open>at(index)\<close> is to return an invalid iterator for every index that is out of
  range, also on the empty tree. On the empty tree the loop of \<open>at\<close> pushes the \<open>null\<close>
  root and reads \<open>n.left\<close>: \<open>at(0)\<close> raises. (On a tree that is not empty every index out
  of range gives the empty stack: see \<open>rbt_at_out_of_range\<close>.)
\<close>

theorem C8_at_on_empty_tree: "rbt_at (createRBTree cmp) 0 = Inl TypeError"
  by (simp add: rbt_at_def createRBTree_def)

text \<open>
  Claim C10. For every reachable tree \<open>t\<close>, key and value, \<open>t.insert(key, value).length()\<close>
  is \<open>t.length() + 1\<close>, and the keys of the new tree are the keys of \<open>t\<close> in their order with
  the new key put in at one place: a key that is already present is then present once
  more.
\<close>

theorem C10_insert_adds_one:
  assumes "reachable t"
  shows "rbt_length (rbt_insert t key val) = rbt_length t + 1
         \<and> (\<exists>xs ys. rbt_keys t = xs @ ys \<and> rbt_keys (rbt_insert t key val) = xs @ key # ys)"
proof -
  have inv: "rbInv (root t)" using assms by (rule reachable_rbInv)
  obtain xs ys where "entries (root t) = xs @ ys"
      "entries (root (rbt_insert t key val)) = xs @ (key, val) # ys"
    using entries_rbt_insert_split[of t key val] by auto
  then have "rbt_keys t = map fst xs @ map fst ys
      \<and> rbt_keys (rbt_insert t key val) = map fst xs @ key # map fst ys"
    by (simp add: rbt_keys_entries)
  then show ?thesis using rbInv_rbt_insert(2)[OF inv] by (auto simp: rbt_length_countOf)
qed

theorem C10_insert_adds_one_witness:
  "reachable (rbt_insert (createRBTree defaultCompare) (1::int) ''a'')
   \<and> rbt_length (rbt_insert (rbt_insert (createRBTree defaultCompare) (1::int) ''a'') 1 ''b'')
       = rbt_length (rbt_insert (createRBTree defaultCompare) (1::int) ''a'') + 1
   \<and> rbt_keys (rbt_insert (rbt_insert (createRBTree defaultCompare) (1::int) ''a'') 1 ''b'') = [1, 1]"
proof -
  have r: "reachable (rbt_insert (createRBTree defaultCompare) (1::int) ''a'')"
    by (intro reachable.intros)
  show ?thesis using r C10_insert_adds_one[OF r, of 1 "''b''"] by (simp add: eval_defs)
qed

section \<open>Properties of the compactor\<close>

lemma filesAtCursor_two:
  "filesAtCursor [f0, f1] 0 = [f0]" "filesAtCursor [f0, f1] 1 = [f1]"
  "filesAtCursor [f0, f1] 2 = []"
  by (simp_all add: filesAtCursor_def)

text \<open>
  Claim C2. A file of level \<open>i + 1\<close> is to be loaded and scheduled for deletion exactly
  when its range overlaps the range of the selected file. Here level 1 holds file 3 with
  the range 3 to 8, selected by the cursor, and level 2 holds file 7 with the range 0 to
  5: the end of file 7 lies in the selected range, yet file 7 is neither loaded nor
  scheduled for deletion (the one call made is for file 4 of level 1).
\<close>

theorem C2_end_in_range_not_loaded:
  "(3::int) \<le> 5 \<and> (5::int) \<le> 8 \<and>
   selectedRange \<lparr>lvlFiles = [\<lparr>fileI = 3, fileRange = (3::int, 8)\<rparr>,
                              \<lparr>fileI = 4, fileRange = (30, 40)\<rparr>], lvlComp = 0\<rparr> = Some (3, 8) \<and>
   compactUpperLevel 1
     \<lparr>lvlFiles = [\<lparr>fileI = 3, fileRange = (3::int, 8)\<rparr>, \<lparr>fileI = 4, fileRange = (30, 40)\<rparr>],
      lvlComp = 0\<rparr>
     (Some \<lparr>lvlFiles = [\<lparr>fileI = 7, fileRange = (0, 5)\<rparr>], lvlComp = 0\<rparr>)
   = (1, [(1, 4)])"
  by (simp add: compactUpperLevel_def wrapCursor_def selectedRange_def filesAtCursor_def
      isOverlapping_def startInRange_def endInRange_def entirelyOverlapping_def)

text \<open>
  Claim C3. The level-\<open>i\<close> file that is loaded last and scheduled for deletion is to be
  the one the cursor selected, whose range was used. With two files and the cursor at 0
  the range is taken from the first file, and the second one is loaded.
\<close>

theorem C3_next_file_loaded:
  "selectedRange \<lparr>lvlFiles = [\<lparr>fileI = 3, fileRange = (10::int, 20)\<rparr>,
                              \<lparr>fileI = 4, fileRange = (30, 40)\<rparr>], lvlComp = 0\<rparr> = Some (10, 20)
   \<and> compactUpperLevel 1
        \<lparr>lvlFiles = [\<lparr>fileI = 3, fileRange = (10::int, 20)\<rparr>,
                     \<lparr>fileI = 4, fileRange = (30, 40)\<rparr>], lvlComp = 0\<rparr> None
      = (1, [(1, 4)])"
  by (simp add: compactUpperLevel_def wrapCursor_def selectedRange_def filesAtCursor_def)

text \<open>
  Claim C9. A pass is to treat a manifest that is absent as the empty manifest. Whatever
  \<open>fs.readFileSync\<close> raises leaves \<open>_runCompaction\<close> as it is, before \<open>JSON.parse\<close> and the
  fallback text are reached.
\<close>

theorem C9_read_error_is_fatal:
  "loadManifest (Inl ENOENT) emptyManifest JSON_parse = Inl ENOENT"
  by (simp add: loadManifest_def)

text \<open>
  Claim C1. A tombstone for a key that has no older value is to remove the key from the
  merge buffer entirely. Level 0 holds three files over its budget and there is no other
  level, so \<open>hasOlderValues\<close> is false for every key. Files 1 and 2 hold the key 7 with
  the values \<open>v1\<close> and \<open>v2\<close>, file 3 holds the tombstone of 7. The two inserts leave two
  pairs with the key 7 in the buffer, \<open>remove(7)\<close> takes one of them out, and the buffer
  handed to the table generator still holds the key 7 with the value \<open>v2\<close>.
\<close>

theorem C1_tombstone_leaves_value:
  "hasOlderValues bloom
     [\<lparr>lvlFiles = [\<lparr>fileI = 1, fileRange = (7::int, 7)\<rparr>, \<lparr>fileI = 2, fileRange = (7, 7)\<rparr>,
                   \<lparr>fileI = 3, fileRange = (7, 7)\<rparr>], lvlComp = 0\<rparr>] 7 0 = False
   \<and> compactLevel0 bloom
     [\<lparr>lvlFiles = [\<lparr>fileI = 1, fileRange = (7::int, 7)\<rparr>, \<lparr>fileI = 2, fileRange = (7, 7)\<rparr>,
                   \<lparr>fileI = 3, fileRange = (7, 7)\<rparr>], lvlComp = 0\<rparr>]
     NULLBYTE
     (\<lambda>f. if f = 1 then ([(7, 0, 2)], ''v1'')
          else if f = 2 then ([(7, 0, 2)], ''v2'')
          else ([(7, - 1, 0)], []))
   = Inr \<lparr>compare = defaultCompare, root = RBNode BLACK 7 ''v2'' Null Null 1\<rparr>"
  by (simp add: hasOlderValues_def compactLevel0_def loadKey_def slice_def eval_defs)

end
